theory Spec2Isabelle
  imports Complex_Main
begin

section \<open>The interview room: answer scoring and report generation\<close>

text \<open>
  A shallow embedding of \<^verbatim>\<open>frontend/src/pages/InterviewRoom.tsx\<close>: the scorer
  \<^verbatim>\<open>evaluateAnswer\<close>, the two event handlers that record a score
  (\<^verbatim>\<open>stopRecording\<close>, \<^verbatim>\<open>skipQuestion\<close>) and the aggregation \<^verbatim>\<open>endInterview\<close>.

  Conventions of the embedding.
  \<^item> A JavaScript \<^verbatim>\<open>number\<close> is an IEEE 754 double. A finite double is modelled by the
    rational it denotes, and \<open>+\<close>, \<open>*\<close>, \<open>/\<close> compute the exact result and round it to
    the nearest double, a tie going to the even significand (53 bits). The exponent is
    not bounded: the model is exact as long as no magnitude leaves the range of the
    normal doubles (from \<^verbatim>\<open>2^-1022\<close> up to \<^verbatim>\<open>2^1024\<close>), which holds for every score
    the page computes; infinities, NaN and the sign of zero are not modelled.
    \<^verbatim>\<open>Math.round\<close>, \<^verbatim>\<open>Math.min\<close>, \<^verbatim>\<open>Math.max\<close> and the comparisons are exact.
  \<^item> A JavaScript string is a \<^typ>\<open>string\<close> whose characters are the code units
    \<open>0 .. 255\<close> (Latin-1); \<^verbatim>\<open>null\<close>/\<^verbatim>\<open>undefined\<close> is \<^const>\<open>None\<close>.
  \<^item> A plain object used as a dictionary is an association list in insertion order;
    \<^verbatim>\<open>Object.entries\<close> lists the keys that are array indices first, in ascending
    order, then the other keys in insertion order.
  \<^item> An uncaught \<^verbatim>\<open>TypeError\<close> is the value \<open>Inl TypeError\<close>.
\<close>

subsection \<open>Numbers and strings\<close>

type_synonym number = rat

text \<open>The number of binary digits of a positive integer.\<close>

function bit_length :: "int \<Rightarrow> nat" where
  "bit_length n = (if n \<le> 0 then 0 else Suc (bit_length (n div 2)))"
  by pat_completeness auto
termination
  by (relation "measure nat") auto

declare bit_length.simps [simp del]

text \<open>The binary exponent of a positive rational \<open>x\<close>: the \<open>e\<close> with
  \<open>2 powi e \<le> x < 2 powi (e + 1)\<close>.\<close>

definition binary_exponent :: "rat \<Rightarrow> int" where
  "binary_exponent x =
     (if 1 \<le> x then int (bit_length \<lfloor>x\<rfloor>) - 1
      else - int (bit_length (\<lceil>1 / x\<rceil> - 1)))"

definition round_half_even :: "rat \<Rightarrow> int" where
  "round_half_even x =
     (let f = \<lfloor>x\<rfloor>; r = x - of_int f
      in if r < 1 / 2 then f else if 1 / 2 < r then f + 1 else if even f then f else f + 1)"

text \<open>The double nearest to a rational: the significand is the rational scaled into
  \<^verbatim>\<open>[2^52, 2^53)\<close> and rounded to an integer, a tie going to the even one. A decimal
  literal of the source, such as \<^verbatim>\<open>0.4\<close>, denotes \<open>to_double (4 / 10)\<close>.\<close>

definition to_double :: "rat \<Rightarrow> number" where
  "to_double x =
     (if x = 0 then 0
      else let u = 2 powi (binary_exponent \<bar>x\<bar> - 52)
           in of_int (round_half_even (x / u)) * u)"

text \<open>The operators \<^verbatim>\<open>+\<close>, \<^verbatim>\<open>*\<close> and \<^verbatim>\<open>/\<close> on numbers.\<close>

definition num_add :: "number \<Rightarrow> number \<Rightarrow> number" where
  "num_add x y = to_double (x + y)"

definition num_mul :: "number \<Rightarrow> number \<Rightarrow> number" where
  "num_mul x y = to_double (x * y)"

definition num_div :: "number \<Rightarrow> number \<Rightarrow> number" where
  "num_div x y = to_double (x / y)"

text \<open>\<^verbatim>\<open>Math.round\<close>: the nearest integer, a tie going up.\<close>

definition math_round :: "number \<Rightarrow> int" where
  "math_round x = \<lfloor>x + 1 / 2\<rfloor>"

definition is_white_space :: "char \<Rightarrow> bool" where
  "is_white_space c =
     (c \<in> set [CHR 0x09, CHR 0x0A, CHR 0x0B, CHR 0x0C, CHR 0x0D, CHR '' '', CHR 0xA0])"

definition trim :: "string \<Rightarrow> string" where
  "trim s = rev (dropWhile is_white_space (rev (dropWhile is_white_space s)))"

text \<open>\<^verbatim>\<open>s.split(sep)\<close> for a separator of one character: one more piece than there are
  separators, empty pieces included.\<close>

fun split_str :: "char \<Rightarrow> string \<Rightarrow> string list" where
  "split_str sep [] = [[]]"
| "split_str sep (c # cs) =
     (if c = sep then [] # split_str sep cs
      else (case split_str sep cs of [] \<Rightarrow> [[c]] | w # ws \<Rightarrow> (c # w) # ws))"

definition to_lower_char :: "char \<Rightarrow> char" where
  "to_lower_char c =
     (let n = (of_char c :: nat)
      in if (65 \<le> n \<and> n \<le> 90) \<or> (192 \<le> n \<and> n \<le> 222 \<and> n \<noteq> 215)
         then char_of (n + 32) else c)"

definition toLowerCase :: "string \<Rightarrow> string" where
  "toLowerCase s = map to_lower_char s"

fun starts_with :: "string \<Rightarrow> string \<Rightarrow> bool" where
  "starts_with s [] = True"
| "starts_with [] (p # ps) = False"
| "starts_with (c # cs) (p # ps) = (c = p \<and> starts_with cs ps)"

text \<open>\<^verbatim>\<open>s.includes(p)\<close>: \<open>p\<close> occurs in \<open>s\<close> as a contiguous substring.\<close>

fun includes_str :: "string \<Rightarrow> string \<Rightarrow> bool" where
  "includes_str [] p = (p = [])"
| "includes_str (c # cs) p = (starts_with (c # cs) p \<or> includes_str cs p)"

text \<open>The decimal numeral of a natural number, as a template literal prints it.\<close>

fun show_nat :: "nat \<Rightarrow> string" where
  "show_nat n =
     (if n < 10 then [char_of (48 + n)]
      else show_nat (n div 10) @ [char_of (48 + n mod 10)])"

subsection \<open>Objects as dictionaries\<close>

datatype error = TypeError

text \<open>The property names every plain object inherits from \<^verbatim>\<open>Object.prototype\<close>. Reading
  one of them from an object that has no own property of that name yields the inherited
  function (or, for \<^verbatim>\<open>__proto__\<close>, the prototype), which is truthy and has no
  \<^verbatim>\<open>push\<close>.\<close>

definition object_prototype_keys :: "string list" where
  "object_prototype_keys =
     [''constructor'', ''__defineGetter__'', ''__defineSetter__'', ''hasOwnProperty'',
      ''__lookupGetter__'', ''__lookupSetter__'', ''isPrototypeOf'',
      ''propertyIsEnumerable'', ''toString'', ''valueOf'', ''__proto__'',
      ''toLocaleString'']"

text \<open>\<^verbatim>\<open>obj[k] = v\<close>: an existing key keeps its place, a new key goes last.\<close>

fun set_property :: "string \<Rightarrow> 'a \<Rightarrow> (string \<times> 'a) list \<Rightarrow> (string \<times> 'a) list" where
  "set_property k v [] = [(k, v)]"
| "set_property k v (p # ps) =
     (if fst p = k then (k, v) # ps else p # set_property k v ps)"

definition is_digit :: "char \<Rightarrow> bool" where
  "is_digit c = (48 \<le> (of_char c :: nat) \<and> (of_char c :: nat) \<le> 57)"

definition decimal_value :: "string \<Rightarrow> nat" where
  "decimal_value s = foldl (\<lambda>n c. 10 * n + ((of_char c :: nat) - 48)) 0 s"

text \<open>An array index is the canonical decimal numeral of an integer below \<open>2\<^sup>3\<^sup>2 - 1\<close>.\<close>

definition is_array_index :: "string \<Rightarrow> bool" where
  "is_array_index s =
     (s \<noteq> [] \<and> list_all is_digit s \<and> (s = ''0'' \<or> hd s \<noteq> CHR ''0'')
      \<and> decimal_value s < 4294967295)"

definition object_entries :: "(string \<times> 'a) list \<Rightarrow> (string \<times> 'a) list" where
  "object_entries kvs =
     sort_key (\<lambda>kv. decimal_value (fst kv)) (filter (\<lambda>kv. is_array_index (fst kv)) kvs)
     @ filter (\<lambda>kv. \<not> is_array_index (fst kv)) kvs"

subsection \<open>The data of the page\<close>

record question =
  question_text :: string
  question_type :: "string option"
  expected_keywords :: "string list option"

text \<open>An element of the state \<^verbatim>\<open>questionScores\<close>:
  \<^verbatim>\<open>{ idx: number, score: number, skipped: boolean }\<close>.\<close>

record scored =
  idx :: int
  score :: number
  skipped :: bool

record response =
  question_idx :: int
  response_text :: string
  timestamp :: string

text \<open>The messages shown under the question; the ones about an answer carry its score.\<close>

datatype feedback =
  NoResponseDetected
| TryMoreDetail number
| GoodStart number
| GreatResponse number
| QuestionSkipped

text \<open>The part of the component's state that the scoring handlers read and write.\<close>

record state =
  currentQuestion :: "question option"
  isRecording :: bool
  isProcessing :: bool
  transcript :: string
  questionNumber :: int
  feedback_msg :: "feedback option"
  responses :: "response list"
  questionScores :: "scored list"

record report =
  overall_score :: int
  grade :: string
  questions_answered :: nat
  total_questions :: nat
  questions_skipped :: nat
  category_scores :: "(string \<times> int) list"
  strengths :: "string list"
  weaknesses :: "string list"
  improvement_suggestions :: "string list"
  placement_ready :: string

subsection \<open>Scoring one answer\<close>

definition evaluateAnswer :: "string option \<Rightarrow> question option \<Rightarrow> number" where
  "evaluateAnswer answer question =
     (case answer of
        None \<Rightarrow> 0
      | Some a \<Rightarrow>
          if a = [] \<or> length (trim a) < 5 then 0
          else
            let wordCount = length (split_str CHR '' '' a);
                answerLower = toLowerCase a;
                expectedKeywords =
                  (case question of
                     None \<Rightarrow> []
                   | Some q \<Rightarrow> (case expected_keywords q of None \<Rightarrow> [] | Some ks \<Rightarrow> ks));
                keywordScore =
                  (if length expectedKeywords > 0
                   then num_mul
                          (num_div
                             (of_nat (length (filter (\<lambda>kw. includes_str answerLower (toLowerCase kw))
                                                expectedKeywords)))
                             (of_nat (length expectedKeywords)))
                          10
                   else 5);
                lengthScore = min 10 (num_div (of_nat wordCount) 10);
                structure1 =
                  (if list_ex (\<lambda>w. includes_str answerLower w)
                        [''for example'', ''such as'', ''because'', ''therefore'']
                   then num_add 4 2 else 4);
                structure2 =
                  (if list_ex (\<lambda>w. includes_str answerLower w)
                        [''first'', ''second'', ''third'', ''step'']
                   then num_add structure1 2 else structure1);
                structureScore = (if wordCount \<ge> 30 then num_add structure2 2 else structure2)
            in num_div
                 (of_int (math_round
                    (num_mul
                       (max 1 (min 10
                          (num_add
                             (num_add (num_mul keywordScore (to_double (4 / 10)))
                                      (num_mul lengthScore (to_double (3 / 10))))
                             (num_mul structureScore (to_double (3 / 10))))))
                       10)))
                 10)"

subsection \<open>The handlers that record a score\<close>

text \<open>\<^verbatim>\<open>stopRecording\<close>, up to the point where it schedules the next question. The first
  argument is the clock reading \<^verbatim>\<open>new Date().toISOString()\<close>.\<close>

definition stopRecording :: "string \<Rightarrow> state \<Rightarrow> state" where
  "stopRecording now st =
     (if trim (transcript st) = []
      then st\<lparr>isRecording := False, feedback_msg := Some NoResponseDetected\<rparr>
      else
        let response = \<lparr>question_idx = questionNumber st - 1,
                        response_text = transcript st, timestamp = now\<rparr>;
            sc = evaluateAnswer (Some (transcript st)) (currentQuestion st)
        in st\<lparr>isRecording := False,
              isProcessing := False,
              responses := responses st @ [response],
              questionScores := questionScores st
                @ [\<lparr>idx = questionNumber st - 1, score = sc, skipped = False\<rparr>],
              feedback_msg := Some (if sc < 4 then TryMoreDetail sc
                                    else if sc < 7 then GoodStart sc
                                    else GreatResponse sc)\<rparr>)"

text \<open>\<^verbatim>\<open>skipQuestion\<close>, up to the point where it schedules the next question.\<close>

definition skipQuestion :: "state \<Rightarrow> state" where
  "skipQuestion st =
     st\<lparr>questionScores := questionScores st
           @ [\<lparr>idx = questionNumber st - 1, score = 0, skipped = True\<rparr>],
        feedback_msg := Some QuestionSkipped\<rparr>"

subsection \<open>The report\<close>

text \<open>The loop of \<^verbatim>\<open>endInterview\<close> that adds a skipped entry of score 0 for every
  question index \<open>i\<close> that no entry of \<^verbatim>\<open>allScores\<close> carries yet.\<close>

function add_missing :: "nat \<Rightarrow> nat \<Rightarrow> scored list \<Rightarrow> scored list" where
  "add_missing i n allScores =
     (if i < n
      then add_missing (i + 1) n
             (if find (\<lambda>s. idx s = int i) allScores = None
              then allScores @ [\<lparr>idx = int i, score = 0, skipped = True\<rparr>]
              else allScores)
      else allScores)"
  by pat_completeness auto
termination
  by (relation "measure (\<lambda>(i, n, allScores). n - i)") auto

definition allScores :: "question list \<Rightarrow> scored list \<Rightarrow> scored list" where
  "allScores questions qScores = add_missing 0 (length questions) qScores"

text \<open>\<^verbatim>\<open>questions[i]\<close>, \<^verbatim>\<open>undefined\<close> out of range.\<close>

definition question_at :: "question list \<Rightarrow> int \<Rightarrow> question option" where
  "question_at questions i =
     (if 0 \<le> i \<and> i < int (length questions) then Some (questions ! nat i) else None)"

text \<open>\<^verbatim>\<open>q?.question_type || 'general'\<close>.\<close>

definition qType :: "question list \<Rightarrow> scored \<Rightarrow> string" where
  "qType questions s =
     (case question_at questions (idx s) of
        None \<Rightarrow> ''general''
      | Some q \<Rightarrow>
          (case question_type q of
             None \<Rightarrow> ''general''
           | Some t \<Rightarrow> if t = [] then ''general'' else t))"

text \<open>The \<^verbatim>\<open>forEach\<close> that groups the scores by question type. A type that names an
  inherited property and has no own entry makes \<^verbatim>\<open>push\<close> fail.\<close>

fun categoryScores ::
  "question list \<Rightarrow> scored list \<Rightarrow> (string \<times> number list) list
     \<Rightarrow> error + (string \<times> number list) list" where
  "categoryScores questions [] cs = Inr cs"
| "categoryScores questions (s # rest) cs =
     (case map_of cs (qType questions s) of
        Some scores \<Rightarrow>
          categoryScores questions rest
            (set_property (qType questions s) (scores @ [score s]) cs)
      | None \<Rightarrow>
          if qType questions s \<in> set object_prototype_keys then Inl TypeError
          else categoryScores questions rest
                 (set_property (qType questions s) [score s] cs))"

definition catAvg :: "(string \<times> number list) list \<Rightarrow> (string \<times> int) list" where
  "catAvg cs =
     map (\<lambda>(type, scores).
            (type, math_round
                     (num_mul (num_div (foldl (\<lambda>a b. num_add a b) 0 scores)
                                       (of_nat (length scores)))
                              10)))
         (object_entries cs)"

definition grade_of :: "int \<Rightarrow> string" where
  "grade_of overallScore =
     (if overallScore \<ge> 90 then ''A+''
      else if overallScore \<ge> 80 then ''A''
      else if overallScore \<ge> 70 then ''B+''
      else if overallScore \<ge> 60 then ''B''
      else if overallScore \<ge> 50 then ''C+''
      else if overallScore \<ge> 40 then ''C''
      else if overallScore \<ge> 30 then ''D''
      else ''F'')"

definition placementReady :: "int \<Rightarrow> string" where
  "placementReady overallScore =
     (if overallScore \<ge> 70 then ''Ready''
      else if overallScore \<ge> 50 then ''Needs Work''
      else ''Not Ready'')"

definition endInterview :: "question list \<Rightarrow> scored list \<Rightarrow> error + report" where
  "endInterview questions qScores =
     (let all = allScores questions qScores;
          totalQuestions = length questions;
          answeredCount = length (filter (\<lambda>s. \<not> skipped s) all);
          skippedCount = length (filter (\<lambda>s. skipped s) all);
          avgScore = (if totalQuestions > 0
                      then num_div (foldl (\<lambda>sum s. num_add sum (score s)) 0 all)
                                   (of_nat totalQuestions)
                      else 0);
          overallScore = math_round (num_mul avgScore 10)
      in case categoryScores questions all [] of
           Inl e \<Rightarrow> Inl e
         | Inr cs \<Rightarrow>
             let avgs = catAvg cs;
                 strengths1 = concat (map (\<lambda>(type, avg).
                     if avg \<ge> 70 then [''Strong '' @ type @ '' skills''] else [])
                   (object_entries avgs));
                 weaknesses1 = concat (map (\<lambda>(type, avg).
                     if avg \<ge> 70 then []
                     else if avg < 40 then [''Needs improvement in '' @ type @ '' areas'']
                     else [])
                   (object_entries avgs));
                 weaknesses2 = weaknesses1
                   @ (if skippedCount > 0
                      then [''Skipped '' @ show_nat skippedCount @ '' question(s)''] else []);
                 strengths2 = strengths1
                   @ (if answeredCount = totalQuestions \<and> overallScore \<ge> 60
                      then [''Answered all questions''] else []);
                 strengths3 = strengths2
                   @ (if length strengths2 = 0 then [''Participated in the interview'']
                      else []);
                 weaknesses3 = weaknesses2
                   @ (if length weaknesses2 = 0 then [''No major weaknesses identified'']
                      else []);
                 suggestions1 =
                   (if overallScore < 70
                    then [''Practice answering questions out loud to improve fluency'']
                    else [])
                   @ (case map_of avgs ''technical'' of
                        Some t \<Rightarrow>
                          if t < 60
                          then [''Review core technical concepts and practice coding problems'']
                          else []
                      | None \<Rightarrow> [])
                   @ (case map_of avgs ''hr'' of
                        Some h \<Rightarrow>
                          if h < 60
                          then [''Prepare STAR method responses for behavioral questions'']
                          else []
                      | None \<Rightarrow> [])
                   @ (if skippedCount > 0
                      then [''Try to attempt all questions instead of skipping''] else [])
                   @ (if overallScore < 50
                      then [''Consider taking mock interviews to build confidence'']
                      else []);
                 suggestions2 = suggestions1
                   @ (if length suggestions1 = 0
                      then [''Continue practicing to maintain your skills''] else [])
             in Inr \<lparr>overall_score = overallScore,
                     grade = grade_of overallScore,
                     questions_answered = answeredCount,
                     total_questions = totalQuestions,
                     questions_skipped = skippedCount,
                     category_scores = avgs,
                     strengths = strengths3,
                     weaknesses = weaknesses3,
                     improvement_suggestions = suggestions2,
                     placement_ready = placementReady overallScore\<rparr>)"

subsection \<open>Reference notions and sample data\<close>

text \<open>The demonstration questions that \<^verbatim>\<open>initializeInterview\<close> falls back to.\<close>

definition mockQuestions :: "question list" where
  "mockQuestions =
     [\<lparr>question_text = ''Tell me about yourself and your background in technology.'',
       question_type = Some ''hr'', expected_keywords = None\<rparr>,
      \<lparr>question_text = ''What programming languages are you most proficient in?'',
       question_type = Some ''technical'', expected_keywords = None\<rparr>,
      \<lparr>question_text = ''Describe a challenging project you've worked on.'',
       question_type = Some ''project'', expected_keywords = None\<rparr>,
      \<lparr>question_text = ''How do you handle debugging a complex issue?'',
       question_type = Some ''scenario'', expected_keywords = None\<rparr>,
      \<lparr>question_text = ''What are your career goals for the next 5 years?'',
       question_type = Some ''hr'', expected_keywords = None\<rparr>]"

text \<open>An interview of one question, and lists of scores used as concrete inputs below:
  four events of a five-question interview (index 4 never reached), the five events of a
  complete one, and an answer followed by a skip of the same question.\<close>

definition oneQuestion :: "question list" where
  "oneQuestion =
     [\<lparr>question_text = ''Tell me about yourself and your background in technology.'',
       question_type = Some ''hr'', expected_keywords = None\<rparr>]"

definition partialScores :: "scored list" where
  "partialScores =
     [\<lparr>idx = 0, score = 8, skipped = False\<rparr>,
      \<lparr>idx = 1, score = 6, skipped = False\<rparr>,
      \<lparr>idx = 3, score = 4, skipped = False\<rparr>,
      \<lparr>idx = 2, score = 0, skipped = True\<rparr>]"

definition fiveScores :: "scored list" where
  "fiveScores =
     [\<lparr>idx = 0, score = 8, skipped = False\<rparr>,
      \<lparr>idx = 1, score = 6, skipped = False\<rparr>,
      \<lparr>idx = 2, score = 0, skipped = True\<rparr>,
      \<lparr>idx = 3, score = 4, skipped = False\<rparr>,
      \<lparr>idx = 4, score = 0, skipped = True\<rparr>]"

definition answeredThenSkipped :: "scored list" where
  "answeredThenSkipped =
     [\<lparr>idx = 0, score = 8, skipped = False\<rparr>,
      \<lparr>idx = 0, score = 0, skipped = True\<rparr>]"

text \<open>Three of the demonstration questions with the first one answered, and two of them
  with answers that scored 3.3 and 6.6.\<close>

definition threeQuestions :: "question list" where
  "threeQuestions = take 3 mockQuestions"

definition firstOfThree :: "scored list" where
  "firstOfThree = [\<lparr>idx = 0, score = 8, skipped = False\<rparr>]"

definition twoQuestions :: "question list" where
  "twoQuestions = take 2 mockQuestions"

definition twoDecimalScores :: "scored list" where
  "twoDecimalScores =
     [\<lparr>idx = 0, score = to_double (33 / 10), skipped = False\<rparr>,
      \<lparr>idx = 1, score = to_double (66 / 10), skipped = False\<rparr>]"

text \<open>Two questions of which the second carries no type, with one answer each, and two
  questions without a type whose answers scored 1.3 and 4.6.\<close>

definition untypedQuestions :: "question list" where
  "untypedQuestions =
     [\<lparr>question_text = ''Tell me about yourself and your background in technology.'',
       question_type = Some ''hr'', expected_keywords = None\<rparr>,
      \<lparr>question_text = ''Why should we hire you?'',
       question_type = None, expected_keywords = None\<rparr>]"

definition untypedScores :: "scored list" where
  "untypedScores =
     [\<lparr>idx = 0, score = 7, skipped = False\<rparr>,
      \<lparr>idx = 1, score = 5, skipped = False\<rparr>]"

definition twoUntypedQuestions :: "question list" where
  "twoUntypedQuestions =
     [\<lparr>question_text = ''Why should we hire you?'',
       question_type = None, expected_keywords = None\<rparr>,
      \<lparr>question_text = ''Where do you see yourself in five years?'',
       question_type = Some [], expected_keywords = None\<rparr>]"

definition twoUntypedScores :: "scored list" where
  "twoUntypedScores =
     [\<lparr>idx = 0, score = to_double (13 / 10), skipped = False\<rparr>,
      \<lparr>idx = 1, score = to_double (46 / 10), skipped = False\<rparr>]"

text \<open>The state while the first question is being answered, the transcript so far being
  two words.\<close>

definition recordingFirstAnswer :: state where
  "recordingFirstAnswer =
     \<lparr>currentQuestion =
        Some \<lparr>question_text = ''Tell me about yourself and your background in technology.'',
              question_type = Some ''hr'', expected_keywords = None\<rparr>,
      isRecording = True, isProcessing = False,
      transcript = ''hello world'', questionNumber = 1, feedback_msg = None,
      responses = [], questionScores = []\<rparr>"

text \<open>A list of scores with exactly one entry for each question index it mentions, every
  index being one of the question list: after the missing indices are added, each index
  of the question list has exactly one entry.\<close>

definition one_entry_per_index :: "question list \<Rightarrow> scored list \<Rightarrow> bool" where
  "one_entry_per_index qs ss =
     (distinct (map idx ss)
      \<and> list_all (\<lambda>s. 0 \<le> idx s \<and> idx s < int (length qs)) ss)"

text \<open>The range of a score in the data model.\<close>

definition scores_in_range :: "scored list \<Rightarrow> bool" where
  "scores_in_range ss = list_all (\<lambda>s. 0 \<le> score s \<and> score s \<le> 10) ss"

text \<open>The score of question \<open>i\<close>: that of its entry, and 0 when it has none.\<close>

definition score_at :: "scored list \<Rightarrow> int \<Rightarrow> number" where
  "score_at ss i = (case find (\<lambda>s. idx s = i) ss of None \<Rightarrow> 0 | Some s \<Rightarrow> score s)"

text \<open>The sum of a list of numbers as \<^verbatim>\<open>reduce\<close> computes it: from 0, left to right,
  every addition rounded.\<close>

definition num_sum :: "number list \<Rightarrow> number" where
  "num_sum xs = foldl num_add 0 xs"

text \<open>The sum of the numbers divided by \<open>n\<close>, times 10, with the operations of numbers.\<close>

definition mean_times_ten :: "number list \<Rightarrow> nat \<Rightarrow> number" where
  "mean_times_ten xs n = num_mul (num_div (num_sum xs) (of_nat n)) 10"

text \<open>The integer \<open>k\<close> is \<open>v\<close> rounded to the nearest integer, a tie going up.\<close>

definition nearest_integer :: "number \<Rightarrow> int \<Rightarrow> bool" where
  "nearest_integer v k = (of_int k - 1 / 2 \<le> v \<and> v < of_int k + 1 / 2)"

text \<open>The entry that reconciliation adds for question \<open>j\<close>.\<close>

definition missing_entry :: "nat \<Rightarrow> scored" where
  "missing_entry j = \<lparr>idx = int j, score = 0, skipped = True\<rparr>"

section \<open>Properties\<close>

subsection \<open>Rounding to a double\<close>

lemma bit_length_pos: "0 < n \<Longrightarrow> bit_length n = Suc (bit_length (n div 2))"
  by (subst bit_length.simps) simp

lemma bit_length_bounds:
  "0 < n \<Longrightarrow> 2 ^ (bit_length n - 1) \<le> n \<and> n < 2 ^ bit_length n"
proof (induction n rule: bit_length.induct)
  case (1 n)
  show ?case
  proof (cases "n div 2 \<le> 0")
    case True
    with 1(2) have "n = 1" by simp
    then show ?thesis by (simp add: bit_length.simps)
  next
    case False
    then have pos: "0 < n div 2" by simp
    from 1(2) have n0: "\<not> n \<le> 0" by simp
    note IH = 1(1)[OF n0 pos]
    obtain c where c: "bit_length (n div 2) = Suc c"
      using bit_length_pos[OF pos] by blast
    have bl: "bit_length n = Suc (Suc c)"
      using bit_length_pos[OF 1(2)] c by simp
    from IH c have lo: "2 ^ c \<le> n div 2" and hi: "n div 2 < 2 * 2 ^ c" by simp_all
    have "2 * (n div 2) \<le> n" "n < 2 * (n div 2) + 2" by presburger+
    with lo hi show ?thesis unfolding bl by simp
  qed
qed

lemma binary_exponent_bracket:
  assumes "0 < x"
  shows "2 powi binary_exponent x \<le> x \<and> x < 2 powi (binary_exponent x + 1)"
proof (cases "1 \<le> x")
  case True
  define n where "n = \<lfloor>x\<rfloor>"
  from True have fl1: "1 \<le> \<lfloor>x\<rfloor>" by simp
  then have n: "0 < n" and nx: "of_int n \<le> x" and xn: "x < of_int n + 1"
    by (simp_all add: n_def) linarith+
  obtain c where c: "bit_length n = Suc c"
    using bit_length_pos[OF n] by blast
  from bit_length_bounds[OF n] c have lo: "2 ^ c \<le> n" and hi: "n < 2 * 2 ^ c" by simp_all
  have e: "binary_exponent x = int c"
    using True c by (simp add: binary_exponent_def n_def)
  have "(of_int (2 ^ c) :: rat) \<le> of_int n"
    using lo by (simp only: of_int_le_iff)
  then have "(2::rat) ^ c \<le> of_int n" by simp
  moreover have "(of_int n :: rat) + 1 \<le> 2 * 2 ^ c"
  proof -
    from hi have "n + 1 \<le> 2 * 2 ^ c" by simp
    then have "(of_int (n + 1) :: rat) \<le> of_int (2 * 2 ^ c)" by (simp only: of_int_le_iff)
    then show ?thesis by simp
  qed
  moreover have "2 powi (int c) = (2::rat) ^ c" by simp
  moreover have "2 powi (int c + 1) = (2 * 2 ^ c :: rat)" by (simp add: power_int_add)
  ultimately show ?thesis
    using nx xn unfolding e by linarith
next
  case False
  define y where "y = 1 / x"
  from False assms have y1: "1 < y" by (simp add: y_def)
  define m where "m = \<lceil>y\<rceil> - 1"
  from y1 have "2 \<le> \<lceil>y\<rceil>" by linarith
  then have m: "0 < m" and my: "of_int m < y" and ym: "y \<le> of_int m + 1"
    by (simp_all add: m_def) linarith+
  obtain c where c: "bit_length m = Suc c"
    using bit_length_pos[OF m] by blast
  from bit_length_bounds[OF m] c have lo: "2 ^ c \<le> m" and hi: "m < 2 * 2 ^ c" by simp_all
  have e: "binary_exponent x = - int (Suc c)"
    using False c by (simp add: binary_exponent_def m_def y_def)
  have "(of_int (2 ^ c) :: rat) \<le> of_int m"
    using lo by (simp only: of_int_le_iff)
  then have "(2::rat) ^ c \<le> of_int m" by simp
  with my have ylo: "2 ^ c < y" by linarith
  have "(of_int m :: rat) + 1 \<le> 2 * 2 ^ c"
  proof -
    from hi have "m + 1 \<le> 2 * 2 ^ c" by simp
    then have "(of_int (m + 1) :: rat) \<le> of_int (2 * 2 ^ c)" by (simp only: of_int_le_iff)
    then show ?thesis by simp
  qed
  with ym have yhi: "y \<le> 2 * 2 ^ c" by linarith
  have x: "x = 1 / y" using assms by (simp add: y_def)
  have ypos: "0 < y" using y1 by simp
  have "1 / (2 * 2 ^ c) \<le> x"
    unfolding x using yhi ypos by (simp add: frac_le)
  moreover have "x < 1 / 2 ^ c"
    unfolding x using ylo by (simp add: frac_less2)
  moreover have "2 powi (- int (Suc c)) = 1 / (2 * 2 ^ c :: rat)"
    by (simp only: power_int_minus_divide power_int_of_nat power_Suc)
  moreover have "2 powi (- int (Suc c) + 1) = 1 / (2 ^ c :: rat)"
  proof -
    have "- int (Suc c) + 1 = - int c" by simp
    then show ?thesis by (simp only: power_int_minus_divide power_int_of_nat)
  qed
  ultimately show ?thesis unfolding e by simp
qed

lemma pow2_less_imp_less:
  assumes "(2::rat) powi a < 2 powi b"
  shows "a < b"
proof (rule ccontr)
  assume "\<not> a < b"
  then have "b \<le> a" by simp
  then have "(2::rat) powi b \<le> 2 powi a" by (intro power_int_increasing) simp_all
  with assms show False by simp
qed

lemma binary_exponent_unique:
  assumes "2 powi e \<le> x" and "x < 2 powi (e + 1)"
  shows "binary_exponent x = e"
proof -
  have "(0::rat) < 2 powi e" by simp
  with assms(1) have pos: "0 < x" by linarith
  note b = binary_exponent_bracket[OF pos]
  have "(2::rat) powi binary_exponent x < 2 powi (e + 1)"
    using b assms(2) by linarith
  then have "binary_exponent x < e + 1"
    by (rule pow2_less_imp_less)
  moreover have "(2::rat) powi e < 2 powi (binary_exponent x + 1)"
    using b assms(1) by linarith
  then have "e < binary_exponent x + 1"
    by (rule pow2_less_imp_less)
  ultimately show ?thesis by simp
qed

lemma round_half_even_of_int: "round_half_even (of_int k) = k"
  by (simp add: round_half_even_def)

lemma round_half_even_near:
  "\<lfloor>x\<rfloor> \<le> round_half_even x \<and> round_half_even x \<le> \<lfloor>x\<rfloor> + 1"
  by (simp add: round_half_even_def Let_def)

lemma round_half_even_mono:
  assumes "x \<le> y"
  shows "round_half_even x \<le> round_half_even y"
proof (cases "\<lfloor>x\<rfloor> < \<lfloor>y\<rfloor>")
  case True
  with round_half_even_near[of x] round_half_even_near[of y] show ?thesis by linarith
next
  case False
  with floor_mono[OF assms] have eq: "\<lfloor>x\<rfloor> = \<lfloor>y\<rfloor>" by simp
  have "x - of_int \<lfloor>y\<rfloor> \<le> y - of_int \<lfloor>y\<rfloor>" using assms by simp
  then show ?thesis
    unfolding round_half_even_def Let_def eq by auto
qed

lemma pow2_shift:
  "2 ^ 52 * 2 powi (e - 52) = (2 powi e :: rat)"
  "2 ^ 53 * 2 powi (e - 52) = (2 powi (e + 1) :: rat)"
proof -
  show "2 ^ 52 * 2 powi (e - 52) = (2 powi e :: rat)"
    using power_int_add[of "2::rat" 52 "e - 52"] by simp
  have "(2::rat) powi (53 + (e - 52)) = 2 powi 53 * 2 powi (e - 52)"
    by (rule power_int_add) simp
  moreover have "53 + (e - 52) = e + 1" by simp
  ultimately show "2 ^ 53 * 2 powi (e - 52) = (2 powi (e + 1) :: rat)"
    by simp
qed

lemma scaled_range:
  assumes "0 < x"
  shows "2 ^ 52 \<le> x / 2 powi (binary_exponent x - 52)
         \<and> x / 2 powi (binary_exponent x - 52) < 2 ^ 53"
proof -
  let ?e = "binary_exponent x"
  let ?u = "2 powi (?e - 52) :: rat"
  have u: "0 < ?u" by simp
  have lo: "2 ^ 52 * ?u = 2 powi ?e" by (rule pow2_shift)
  have hi: "2 ^ 53 * ?u = 2 powi (?e + 1)" by (rule pow2_shift)
  from binary_exponent_bracket[OF assms]
  have "2 ^ 52 * ?u \<le> x" "x < 2 ^ 53 * ?u" unfolding lo hi by simp_all
  with u show ?thesis by (simp add: pos_le_divide_eq pos_divide_less_eq)
qed

lemma to_double_pos:
  assumes "0 < x"
  shows "2 powi binary_exponent x \<le> to_double x
         \<and> to_double x \<le> 2 powi (binary_exponent x + 1)"
proof -
  let ?e = "binary_exponent x"
  let ?u = "2 powi (?e - 52) :: rat"
  let ?r = "round_half_even (x / ?u)"
  have u: "0 < ?u" by simp
  have lo: "2 ^ 52 * ?u = 2 powi ?e" by (rule pow2_shift)
  have hi: "2 ^ 53 * ?u = 2 powi (?e + 1)" by (rule pow2_shift)
  from scaled_range[OF assms]
  have "round_half_even (of_int (2 ^ 52)) \<le> ?r" "?r \<le> round_half_even (of_int (2 ^ 53))"
    by (auto intro!: round_half_even_mono)
  then have "2 ^ 52 \<le> ?r" "?r \<le> 2 ^ 53"
    by (simp_all only: round_half_even_of_int)
  then have "(2 ^ 52 :: rat) \<le> of_int ?r" "(of_int ?r :: rat) \<le> 2 ^ 53"
    by (metis of_int_le_iff of_int_numeral of_int_power)+
  then have "2 ^ 52 * ?u \<le> of_int ?r * ?u" "of_int ?r * ?u \<le> 2 ^ 53 * ?u"
    using u by (simp_all only: mult_le_cancel_right_pos)
  moreover have "to_double x = of_int ?r * ?u"
    using assms by (simp add: to_double_def Let_def)
  ultimately show ?thesis unfolding lo hi by simp
qed

lemma to_double_neg:
  assumes "x < 0"
  shows "- (2 powi (binary_exponent (- x) + 1)) \<le> to_double x
         \<and> to_double x \<le> - (2 powi binary_exponent (- x))"
proof -
  let ?e = "binary_exponent (- x)"
  let ?u = "2 powi (?e - 52) :: rat"
  let ?r = "round_half_even (x / ?u)"
  have u: "0 < ?u" by simp
  have lo: "2 ^ 52 * ?u = 2 powi ?e" by (rule pow2_shift)
  have hi: "2 ^ 53 * ?u = 2 powi (?e + 1)" by (rule pow2_shift)
  from assms have "0 < - x" by simp
  from scaled_range[OF this]
  have "of_int (- (2 ^ 53)) \<le> x / ?u" "x / ?u \<le> of_int (- (2 ^ 52))"
    by simp_all
  then have "round_half_even (of_int (- (2 ^ 53))) \<le> ?r"
            "?r \<le> round_half_even (of_int (- (2 ^ 52)))"
    by (auto intro!: round_half_even_mono)
  then have "- (2 ^ 53) \<le> ?r" "?r \<le> - (2 ^ 52)"
    by (simp_all only: round_half_even_of_int)
  then have "(- (2 ^ 53) :: rat) \<le> of_int ?r" "(of_int ?r :: rat) \<le> - (2 ^ 52)"
    by (metis of_int_le_iff of_int_minus of_int_numeral of_int_power)+
  then have "- (2 ^ 53) * ?u \<le> of_int ?r * ?u" "of_int ?r * ?u \<le> - (2 ^ 52) * ?u"
    using u by (simp_all only: mult_le_cancel_right_pos)
  moreover have "to_double x = of_int ?r * ?u"
    using assms by (simp add: to_double_def Let_def abs_if)
  ultimately show ?thesis using lo hi by simp
qed

lemma to_double_zero: "to_double 0 = 0"
  by (simp add: to_double_def)

lemma to_double_nonneg:
  assumes "0 \<le> y"
  shows "0 \<le> to_double y"
proof (cases "y = 0")
  case True
  then show ?thesis by (simp add: to_double_zero)
next
  case False
  with assms have "0 < y" by simp
  moreover have "(0::rat) < 2 powi binary_exponent y" by simp
  ultimately show ?thesis using to_double_pos[of y] by linarith
qed

lemma to_double_nonpos:
  assumes "x \<le> 0"
  shows "to_double x \<le> 0"
proof (cases "x = 0")
  case True
  then show ?thesis by (simp add: to_double_zero)
next
  case False
  with assms have "x < 0" by simp
  moreover have "(0::rat) < 2 powi binary_exponent (- x)" by simp
  ultimately show ?thesis using to_double_neg[of x] by linarith
qed

lemma to_double_mono:
  assumes "x \<le> y"
  shows "to_double x \<le> to_double y"
proof -
  consider (a) "x \<le> 0" "0 \<le> y" | (c) "0 < x" | (d) "y < 0"
    using assms by linarith
  then show ?thesis
  proof cases
    case a
    from to_double_nonpos[OF a(1)] to_double_nonneg[OF a(2)] show ?thesis by linarith
  next
    case c
    with assms have y: "0 < y" by simp
    let ?ex = "binary_exponent x" and ?ey = "binary_exponent y"
    note bx = binary_exponent_bracket[OF c] and by' = binary_exponent_bracket[OF y]
    have "(2::rat) powi ?ex < 2 powi (?ey + 1)" using bx by' assms by linarith
    then have "?ex < ?ey + 1" by (rule pow2_less_imp_less)
    then have le: "?ex \<le> ?ey" by simp
    show ?thesis
    proof (cases "?ex = ?ey")
      case True
      let ?u = "2 powi (?ey - 52) :: rat"
      have u: "0 < ?u" by simp
      have "x / ?u \<le> y / ?u" using assms u by (simp add: divide_right_mono)
      then have "round_half_even (x / ?u) \<le> round_half_even (y / ?u)"
        by (rule round_half_even_mono)
      then have "(of_int (round_half_even (x / ?u)) :: rat) \<le> of_int (round_half_even (y / ?u))"
        by (simp only: of_int_le_iff)
      then have "of_int (round_half_even (x / ?u)) * ?u \<le> of_int (round_half_even (y / ?u)) * ?u"
        using u by (simp only: mult_le_cancel_right_pos)
      then show ?thesis using c y True by (simp add: to_double_def Let_def)
    next
      case False
      with le have "?ex + 1 \<le> ?ey" by simp
      then have "(2::rat) powi (?ex + 1) \<le> 2 powi ?ey"
        by (intro power_int_increasing) simp_all
      with to_double_pos[OF c] to_double_pos[OF y] show ?thesis by linarith
    qed
  next
    case d
    with assms have x: "x < 0" by simp
    let ?ex = "binary_exponent (- x)" and ?ey = "binary_exponent (- y)"
    from x d have nx: "0 < - x" and ny: "0 < - y" by simp_all
    note bx = binary_exponent_bracket[OF nx] and by' = binary_exponent_bracket[OF ny]
    have "(2::rat) powi ?ey < 2 powi (?ex + 1)" using bx by' assms by linarith
    then have "?ey < ?ex + 1" by (rule pow2_less_imp_less)
    then have le: "?ey \<le> ?ex" by simp
    show ?thesis
    proof (cases "?ex = ?ey")
      case True
      let ?u = "2 powi (?ey - 52) :: rat"
      have u: "0 < ?u" by simp
      have "x / ?u \<le> y / ?u" using assms u by (simp add: divide_right_mono)
      then have "round_half_even (x / ?u) \<le> round_half_even (y / ?u)"
        by (rule round_half_even_mono)
      then have "(of_int (round_half_even (x / ?u)) :: rat) \<le> of_int (round_half_even (y / ?u))"
        by (simp only: of_int_le_iff)
      then have "of_int (round_half_even (x / ?u)) * ?u \<le> of_int (round_half_even (y / ?u)) * ?u"
        using u by (simp only: mult_le_cancel_right_pos)
      then show ?thesis using x d True by (simp add: to_double_def Let_def abs_if)
    next
      case False
      with le have "?ey + 1 \<le> ?ex" by simp
      then have "(2::rat) powi (?ey + 1) \<le> 2 powi ?ex"
        by (intro power_int_increasing) simp_all
      with to_double_neg[OF x] to_double_neg[OF d] show ?thesis by linarith
    qed
  qed
qed

lemma mantissa_bound:
  assumes "x \<noteq> 0"
  shows "\<bar>round_half_even (x / 2 powi (binary_exponent \<bar>x\<bar> - 52))\<bar> \<le> 2 ^ 53"
proof (cases "0 < x")
  case True
  let ?u = "2 powi (binary_exponent x - 52) :: rat"
  from scaled_range[OF True]
  have "round_half_even (of_int (2 ^ 52)) \<le> round_half_even (x / ?u)"
       "round_half_even (x / ?u) \<le> round_half_even (of_int (2 ^ 53))"
    by (auto intro!: round_half_even_mono)
  then have "2 ^ 52 \<le> round_half_even (x / ?u)" "round_half_even (x / ?u) \<le> 2 ^ 53"
    by (simp_all only: round_half_even_of_int)
  then show ?thesis using True by (simp add: abs_if)
next
  case False
  with assms have neg: "x < 0" by simp
  then have pos: "0 < - x" by simp
  let ?u = "2 powi (binary_exponent (- x) - 52) :: rat"
  from scaled_range[OF pos]
  have "of_int (- (2 ^ 53)) \<le> x / ?u" "x / ?u \<le> of_int (- (2 ^ 52))"
    by simp_all
  then have "round_half_even (of_int (- (2 ^ 53))) \<le> round_half_even (x / ?u)"
            "round_half_even (x / ?u) \<le> round_half_even (of_int (- (2 ^ 52)))"
    by (auto intro!: round_half_even_mono)
  then have "- (2 ^ 53) \<le> round_half_even (x / ?u)" "round_half_even (x / ?u) \<le> - (2 ^ 52)"
    by (simp_all only: round_half_even_of_int)
  then show ?thesis using neg by (simp add: abs_if)
qed

lemma to_double_exact:
  assumes "\<bar>m\<bar> \<le> 2 ^ 53"
  shows "to_double (of_int m * 2 powi j) = of_int m * 2 powi j"
proof (cases "m = 0")
  case True
  then show ?thesis by (simp add: to_double_zero)
next
  case False
  define a where "a = \<bar>m\<bar>"
  define x :: rat where "x = of_int m * 2 powi j"
  define b where "b = binary_exponent (of_int a)"
  from False have a1: "1 \<le> a" by (simp add: a_def)
  then have apos: "(0::rat) < of_int a" by simp
  from binary_exponent_bracket[OF apos]
  have blo: "2 powi b \<le> (of_int a :: rat)" and bhi: "(of_int a :: rat) < 2 powi (b + 1)"
    by (simp_all add: b_def)
  have "(of_int 1 :: rat) \<le> of_int a" using a1 by (simp only: of_int_le_iff)
  with bhi have "(2::rat) powi 0 < 2 powi (b + 1)" by simp
  then have "0 < b + 1" by (rule pow2_less_imp_less)
  then have b0: "0 \<le> b" by simp
  have a53: "(of_int a :: rat) \<le> 2 ^ 53"
  proof -
    have "(of_int a :: rat) \<le> of_int (2 ^ 53)" using assms unfolding a_def by (simp only: of_int_le_iff)
    then show ?thesis by simp
  qed
  with blo have "(2::rat) powi b < 2 powi 54" by simp
  then have "b < 54" by (rule pow2_less_imp_less)
  then have b53: "b \<le> 53" by simp
  have pj: "(0::rat) < 2 powi j" by simp
  have absx: "\<bar>x\<bar> = of_int a * 2 powi j"
    by (simp add: x_def a_def abs_mult)
  have "2 powi (b + j) = (2 powi b * 2 powi j :: rat)" by (rule power_int_add) simp
  moreover have "2 powi (b + j + 1) = (2 powi (b + 1) * 2 powi j :: rat)"
  proof -
    have "b + j + 1 = (b + 1) + j" by simp
    then show ?thesis by (simp only: power_int_add[of "2::rat" "b + 1" j, simplified])
  qed
  ultimately have "2 powi (b + j) \<le> \<bar>x\<bar>" "\<bar>x\<bar> < 2 powi (b + j + 1)"
    unfolding absx using blo bhi pj by (simp_all only: mult_le_cancel_right_pos mult_less_cancel_right_pos)
  then have e: "binary_exponent \<bar>x\<bar> = b + j" by (rule binary_exponent_unique)
  let ?u = "2 powi (b + j - 52) :: rat"
  have u: "?u \<noteq> 0" by simp
  have "2 powi j / ?u = (2 powi (j - (b + j - 52)) :: rat)"
    by (rule power_int_diff[symmetric]) simp
  moreover have "j - (b + j - 52) = 52 - b" by simp
  ultimately have "2 powi j / ?u = (2 powi (52 - b) :: rat)" by (simp only:)
  moreover have "x / ?u = of_int m * (2 powi j / ?u)" by (simp add: x_def)
  ultimately have q: "x / ?u = of_int m * 2 powi (52 - b)" by (simp only:)
  have "\<exists>k. x / ?u = of_int k"
  proof (cases "b \<le> 52")
    case True
    then have "(2::rat) powi (52 - b) = 2 ^ nat (52 - b)" by (simp add: power_int_nonneg_exp)
    then have "x / ?u = of_int (m * 2 ^ nat (52 - b))" unfolding q by simp
    then show ?thesis by blast
  next
    case False
    with b53 have b: "b = 53" by simp
    from blo a53 have "(of_int a :: rat) = of_int (2 ^ 53)" unfolding b by simp
    then have a: "a = 2 ^ 53" by (simp only: of_int_eq_iff)
    then have "m = 2 * 2 ^ 52 \<or> m = - (2 * 2 ^ 52)" unfolding a_def by (auto simp: abs_if split: if_splits)
    then have half: "(of_int m :: rat) * (1 / 2) = of_int (m div 2)" by auto
    have "(2::rat) powi (52 - b) = 1 / 2" unfolding b by simp
    with q have "x / ?u = of_int m * (1 / 2)" by (simp only:)
    with half have "x / ?u = of_int (m div 2)" by (simp only:)
    then show ?thesis by blast
  qed
  then obtain k where k: "x / ?u = of_int k" by blast
  have x0: "x \<noteq> 0" using False by (simp add: x_def)
  have "to_double x = of_int (round_half_even (x / ?u)) * ?u"
    using x0 by (simp add: to_double_def Let_def e)
  also have "\<dots> = (x / ?u) * ?u" unfolding k by (simp only: round_half_even_of_int)
  also have "\<dots> = x" by simp
  finally show ?thesis unfolding x_def .
qed

lemma to_double_of_int:
  assumes "\<bar>k\<bar> \<le> 2 ^ 53"
  shows "to_double (of_int k) = of_int k"
  using to_double_exact[OF assms, of 0] by simp

lemma to_double_of_nat:
  assumes "n \<le> 2 ^ 53"
  shows "to_double (of_nat n) = of_nat n"
proof -
  have "int n \<le> int (2 ^ 53)" using assms by (simp only: of_nat_le_iff)
  then have "\<bar>int n\<bar> \<le> 2 ^ 53" by simp
  from to_double_of_int[OF this] show ?thesis by simp
qed

lemma to_double_idem: "to_double (to_double x) = to_double x"
proof (cases "x = 0")
  case True
  then show ?thesis by (simp add: to_double_zero)
next
  case False
  have "to_double x
        = of_int (round_half_even (x / 2 powi (binary_exponent \<bar>x\<bar> - 52)))
          * 2 powi (binary_exponent \<bar>x\<bar> - 52)"
    using False by (simp add: to_double_def Let_def)
  with to_double_exact[OF mantissa_bound[OF False]] show ?thesis by simp
qed

lemma to_double_numerals:
  "to_double 1 = 1" "to_double 10 = 10" "to_double 100 = 100"
  using to_double_of_int[of 1] to_double_of_int[of 10] to_double_of_int[of 100] by simp_all

lemma to_double_range:
  assumes "of_int a \<le> x" and "x \<le> of_int b" and "\<bar>a\<bar> \<le> 2 ^ 53" and "\<bar>b\<bar> \<le> 2 ^ 53"
  shows "of_int a \<le> to_double x \<and> to_double x \<le> of_int b"
  using to_double_mono[OF assms(1)] to_double_mono[OF assms(2)]
    to_double_of_int[OF assms(3)] to_double_of_int[OF assms(4)] by simp

text \<open>Rules that let the simplifier compute with concrete numbers.\<close>

lemma floor_rat_divide_numeral:
  "\<lfloor>numeral a / numeral b :: rat\<rfloor> = numeral a div numeral b"
  by (metis floor_divide_of_int_eq of_int_numeral)

lemma floor_rat_minus_divide_numeral:
  "\<lfloor>- (numeral a / numeral b) :: rat\<rfloor> = - numeral a div numeral b"
  by (metis divide_minus_left floor_divide_of_int_eq of_int_neg_numeral of_int_numeral)

lemma ceiling_rat_divide_numeral:
  "\<lceil>numeral a / numeral b :: rat\<rceil> = - (- numeral a div numeral b)"
  by (metis ceiling_def floor_divide_of_int_eq minus_divide_left of_int_minus of_int_numeral)

lemmas double_eval =
  to_double_def num_add_def num_mul_def num_div_def binary_exponent_def
  round_half_even_def bit_length.simps Let_def math_round_def
  floor_rat_divide_numeral floor_rat_minus_divide_numeral ceiling_rat_divide_numeral

subsection \<open>Rounding\<close>

lemma math_round_mono: "x \<le> y \<Longrightarrow> math_round x \<le> math_round y"
  by (simp add: math_round_def floor_mono)

lemma math_round_of_int: "math_round (of_int k) = k"
  unfolding math_round_def by linarith

lemma nearest_integer_iff: "nearest_integer v k \<longleftrightarrow> k = math_round v"
  unfolding nearest_integer_def math_round_def by linarith

subsection \<open>The scorer\<close>

lemma evaluateAnswer_nontrivial:
  assumes "\<not> length (trim a) < 5"
  shows "\<exists>k. 10 \<le> k \<and> k \<le> 100 \<and> evaluateAnswer (Some a) q = num_div (of_int k) 10"
proof -
  from assms have ne: "a \<noteq> []" by (auto simp: trim_def)
  have "\<exists>m. evaluateAnswer (Some a) q
              = num_div (of_int (math_round (num_mul (max 1 (min 10 m)) 10))) 10"
    unfolding evaluateAnswer_def Let_def option.case using assms ne
    by (simp only: simp_thms if_False) (rule exI, rule refl)
  then obtain m where
    m: "evaluateAnswer (Some a) q
        = num_div (of_int (math_round (num_mul (max 1 (min 10 m)) 10))) 10"
    by blast
  define c where "c = max 1 (min 10 m)"
  have "of_int 10 \<le> c * 10" "c * 10 \<le> of_int 100" by (simp_all add: c_def)
  then have "of_int 10 \<le> num_mul c 10 \<and> num_mul c 10 \<le> of_int 100"
    unfolding num_mul_def by (rule to_double_range) simp_all
  then have "math_round (of_int 10) \<le> math_round (num_mul c 10)"
            "math_round (num_mul c 10) \<le> math_round (of_int 100)"
    by (simp_all add: math_round_mono)
  then have "10 \<le> math_round (num_mul c 10)" "math_round (num_mul c 10) \<le> 100"
    by (simp_all only: math_round_of_int)
  with m show ?thesis unfolding c_def by blast
qed

text \<open>
  C1. The scorer has a two-tier floor. An absent answer, and an answer whose trimmed
  length is below 5, score exactly 0, whatever the question. Every other answer scores
  between 1 and 10, and its score is a whole number of tenths: the number \<open>k / 10\<close> for
  an integer \<open>k\<close> from 10 to 100. The score is a function of the answer and the question
  alone, so equal inputs give equal scores.
\<close>

theorem evaluateAnswer_two_tier_floor:
  "evaluateAnswer None q = 0
   \<and> (length (trim a) < 5 \<longrightarrow> evaluateAnswer (Some a) q = 0)
   \<and> (\<not> length (trim a) < 5 \<longrightarrow>
        1 \<le> evaluateAnswer (Some a) q \<and> evaluateAnswer (Some a) q \<le> 10
        \<and> (\<exists>k::int. 10 \<le> k \<and> k \<le> 100
              \<and> evaluateAnswer (Some a) q = num_div (of_int k) 10))"
proof (intro conjI impI)
  show "evaluateAnswer None q = 0" by (simp add: evaluateAnswer_def)
next
  assume "length (trim a) < 5"
  then show "evaluateAnswer (Some a) q = 0" by (simp add: evaluateAnswer_def)
next
  assume "\<not> length (trim a) < 5"
  then obtain k where k: "10 \<le> k" "k \<le> 100"
      "evaluateAnswer (Some a) q = num_div (of_int k) 10"
    using evaluateAnswer_nontrivial by blast
  from k(1,2) have "(of_int 1 :: rat) \<le> of_int k / 10" "(of_int k :: rat) / 10 \<le> of_int 10"
    by simp_all
  then have "of_int 1 \<le> num_div (of_int k) 10 \<and> num_div (of_int k) 10 \<le> of_int 10"
    unfolding num_div_def by (rule to_double_range) simp_all
  with k show "1 \<le> evaluateAnswer (Some a) q" "evaluateAnswer (Some a) q \<le> 10"
    "\<exists>k::int. 10 \<le> k \<and> k \<le> 100 \<and> evaluateAnswer (Some a) q = num_div (of_int k) 10"
    by auto
qed

theorem evaluateAnswer_two_tier_floor_witness:
  "length (trim ''  ok '') < 5 \<and> evaluateAnswer (Some ''  ok '') None = 0
   \<and> \<not> length (trim ''hello world'') < 5
   \<and> 1 \<le> evaluateAnswer (Some ''hello world'') None
   \<and> evaluateAnswer (Some ''hello world'') None \<le> 10
   \<and> (\<exists>k::int. 10 \<le> k \<and> k \<le> 100
         \<and> evaluateAnswer (Some ''hello world'') None = num_div (of_int k) 10)"
proof -
  have short: "length (trim ''  ok '') < 5" by code_simp
  have long: "\<not> length (trim ''hello world'') < 5" by code_simp
  from short long
    evaluateAnswer_two_tier_floor [of None "''  ok ''"]
    evaluateAnswer_two_tier_floor [of None "''hello world''"]
  show ?thesis by blast
qed

text \<open>
  C7. The worked example: with the expected keywords \<open>recursion\<close> and \<open>base case\<close>, the
  answer below scores exactly 6.3, the number that the literal \<^verbatim>\<open>6.3\<close> denotes. Both
  keywords occur (keyword score 10), the answer splits into 17 pieces (length score 1.7),
  and it contains \<open>for example\<close> but no enumeration marker (structure score 6): the
  weighted sum is 6.31 up to rounding, and 63 tenths after \<^verbatim>\<open>Math.round\<close>.
\<close>

theorem evaluateAnswer_recursion_example:
  "evaluateAnswer
     (Some ''Recursion works by breaking a problem into a base case and smaller subproblems, for example computing factorial.'')
     (Some \<lparr>question_text = ''Explain recursion.'', question_type = Some ''technical'',
            expected_keywords = Some [''recursion'', ''base case'']\<rparr>)
   = to_double (63 / 10)"
  by code_simp

subsection \<open>Sums of numbers\<close>

lemma foldl_num_add_double:
  "to_double a = a \<Longrightarrow> to_double (foldl num_add a xs) = foldl num_add a xs"
  by (induction xs arbitrary: a) (simp_all add: num_add_def to_double_idem)

lemma num_sum_double: "to_double (num_sum xs) = num_sum xs"
  unfolding num_sum_def by (rule foldl_num_add_double) (simp add: to_double_zero)

lemma foldl_num_add_zeros:
  "to_double a = a \<Longrightarrow> list_all (\<lambda>x. x = 0) zs \<Longrightarrow> foldl num_add a zs = a"
  by (induction zs arbitrary: a) (simp_all add: num_add_def)

lemma num_sum_append_zeros:
  assumes "list_all (\<lambda>x. x = 0) zs"
  shows "num_sum (xs @ zs) = num_sum xs"
proof -
  have "num_sum (xs @ zs) = foldl num_add (num_sum xs) zs"
    by (simp add: num_sum_def)
  also have "\<dots> = num_sum xs"
    using num_sum_double assms by (rule foldl_num_add_zeros)
  finally show ?thesis .
qed

lemma foldl_num_add_mono:
  "list_all2 (\<le>) xs ys \<Longrightarrow> a \<le> b \<Longrightarrow> foldl num_add a xs \<le> foldl num_add b ys"
proof (induction xs ys arbitrary: a b rule: list_all2_induct)
  case Nil
  then show ?case by simp
next
  case (Cons x xs y ys)
  from Cons.hyps(1) Cons.prems have "num_add a x \<le> num_add b y"
    unfolding num_add_def by (intro to_double_mono add_mono)
  then show ?case using Cons.IH by simp
qed

lemma foldl_score:
  "foldl (\<lambda>sum s. num_add sum (score s)) a xs = foldl num_add a (map score xs)"
  by (induction xs arbitrary: a) simp_all

lemma num_sum_bounds:
  assumes "\<forall>x\<in>set xs. 0 \<le> x \<and> x \<le> 10" and "10 * int (length xs) \<le> 2 ^ 53"
  shows "0 \<le> num_sum xs \<and> num_sum xs \<le> 10 * of_nat (length xs)"
  using assms
proof (induction xs rule: rev_induct)
  case Nil
  then show ?case by (simp add: num_sum_def)
next
  case (snoc x xs)
  then have IH: "0 \<le> num_sum xs" "num_sum xs \<le> 10 * of_nat (length xs)"
    and x: "0 \<le> x" "x \<le> 10" by simp_all
  have step: "num_sum (xs @ [x]) = to_double (num_sum xs + x)"
    by (simp add: num_sum_def num_add_def)
  have "of_int 0 \<le> num_sum xs + x" using IH x by simp
  moreover have "num_sum xs + x \<le> of_int (10 * int (length (xs @ [x])))"
    using IH x by simp
  moreover have "\<bar>10 * int (length (xs @ [x]))\<bar> \<le> 2 ^ 53" using snoc.prems(2) by simp
  ultimately have "of_int 0 \<le> to_double (num_sum xs + x)
                   \<and> to_double (num_sum xs + x) \<le> of_int (10 * int (length (xs @ [x])))"
    by (intro to_double_range) simp_all
  then show ?case unfolding step by simp
qed

subsection \<open>Reconciliation and the overall score\<close>

lemma add_missing_closed:
  assumes "i \<le> n"
  shows "add_missing i n
           (ss @ map (\<lambda>j. \<lparr>idx = int j, score = 0, skipped = True\<rparr>)
                   (filter (\<lambda>j. int j \<notin> idx ` set ss) [0..<i]))
         = ss @ map (\<lambda>j. \<lparr>idx = int j, score = 0, skipped = True\<rparr>)
                   (filter (\<lambda>j. int j \<notin> idx ` set ss) [0..<n])"
  using assms
proof (induction "n - i" arbitrary: i)
  case 0
  then have "i = n" by simp
  then show ?case by simp
next
  case (Suc d)
  then have lt: "i < n" and d: "d = n - (i + 1)" and le: "i + 1 \<le> n" by simp_all
  let ?mk = "\<lambda>j. \<lparr>idx = int j, score = 0, skipped = True\<rparr>"
  let ?acc = "ss @ map ?mk (filter (\<lambda>j. int j \<notin> idx ` set ss) [0..<i])"
  have found: "(find (\<lambda>s. idx s = int i) ?acc = None) = (int i \<notin> idx ` set ss)"
    by (auto simp: find_None_iff intro: rev_image_eqI)
  have step: "(if find (\<lambda>s. idx s = int i) ?acc = None then ?acc @ [?mk i] else ?acc)
              = ss @ map ?mk (filter (\<lambda>j. int j \<notin> idx ` set ss) [0..<i + 1])"
    unfolding found by simp
  have "add_missing i n ?acc
        = add_missing (i + 1) n
            (if find (\<lambda>s. idx s = int i) ?acc = None then ?acc @ [?mk i] else ?acc)"
    using lt by (subst add_missing.simps) simp
  also have "\<dots> = add_missing (i + 1) n
                     (ss @ map ?mk (filter (\<lambda>j. int j \<notin> idx ` set ss) [0..<i + 1]))"
    by (simp only: step)
  also have "\<dots> = ss @ map ?mk (filter (\<lambda>j. int j \<notin> idx ` set ss) [0..<n])"
    using Suc.hyps(1)[OF d le] .
  finally show ?case .
qed

lemma allScores_closed:
  "allScores qs ss
   = ss @ map missing_entry (filter (\<lambda>j. int j \<notin> idx ` set ss) [0..<length qs])"
proof -
  have "missing_entry = (\<lambda>j. \<lparr>idx = int j, score = 0, skipped = True\<rparr>)"
    by (rule ext) (simp add: missing_entry_def)
  with add_missing_closed [of 0 "length qs" ss] show ?thesis
    by (simp add: allScores_def)
qed

lemma sum_allScores:
  "num_sum (map score (allScores qs ss)) = num_sum (map score ss)"
proof -
  have "list_all (\<lambda>x. x = 0)
          (map score (map missing_entry (filter (\<lambda>j. int j \<notin> idx ` set ss) [0..<length qs])))"
    by (simp add: list_all_iff missing_entry_def)
  then show ?thesis
    unfolding allScores_closed map_append by (rule num_sum_append_zeros)
qed

lemma count_present:
  assumes "distinct (map idx ss)" and "\<forall>s\<in>set ss. 0 \<le> idx s \<and> idx s < int n"
  shows "length (filter (\<lambda>j. int j \<in> idx ` set ss) [0..<n]) = length ss"
proof -
  have "length (filter (\<lambda>j. int j \<in> idx ` set ss) [0..<n])
        = card {j. j < n \<and> int j \<in> idx ` set ss}"
    by (simp add: distinct_length_filter Collect_conj_eq Int_commute lessThan_def[symmetric] atLeast0LessThan)
  also have "\<dots> = card (int ` {j. j < n \<and> int j \<in> idx ` set ss})"
    by (simp add: card_image)
  also have "int ` {j. j < n \<and> int j \<in> idx ` set ss} = idx ` set ss"
  proof (intro equalityI subsetI)
    fix x assume "x \<in> idx ` set ss"
    then obtain s where s: "s \<in> set ss" "x = idx s" by blast
    with assms(2) have "0 \<le> x" "x < int n" by auto
    then have "nat x < n" "int (nat x) = x" by simp_all
    with s show "x \<in> int ` {j. j < n \<and> int j \<in> idx ` set ss}"
      by (intro image_eqI[where x = "nat x"]) auto
  qed auto
  also have "card (idx ` set ss) = length ss"
    using assms(1) distinct_card[of "map idx ss"] by simp
  finally show ?thesis .
qed

lemma length_allScores:
  assumes "distinct (map idx ss)" and "\<forall>s\<in>set ss. 0 \<le> idx s \<and> idx s < int (length qs)"
  shows "length (allScores qs ss) = length qs"
proof -
  have "length (filter (\<lambda>j. int j \<in> idx ` set ss) [0..<length qs])
        + length (filter (\<lambda>j. \<not> int j \<in> idx ` set ss) [0..<length qs])
        = length [0..<length qs]"
    by (rule sum_length_filter_compl)
  with count_present[OF assms] show ?thesis
    by (simp add: allScores_closed)
qed

lemma reconciled_indices:
  assumes "distinct (map idx ss)" and "\<forall>s\<in>set ss. 0 \<le> idx s \<and> idx s < int (length qs)"
  shows "distinct (map idx (allScores qs ss))"
    and "set (map idx (allScores qs ss)) = int ` {..<length qs}"
proof -
  let ?new = "filter (\<lambda>j. int j \<notin> idx ` set ss) [0..<length qs]"
  have idxs: "map idx (allScores qs ss) = map idx ss @ map int ?new"
    by (simp add: allScores_closed comp_def missing_entry_def)
  have "distinct (map int ?new)"
    by (simp add: distinct_map)
  moreover have "set (map idx ss) \<inter> set (map int ?new) = {}"
    by (auto simp: image_iff)
  ultimately show "distinct (map idx (allScores qs ss))"
    using assms(1) unfolding idxs by (simp only: distinct_append)
  have sub: "idx ` set ss \<subseteq> int ` {..<length qs}"
  proof
    fix x assume "x \<in> idx ` set ss"
    with assms(2) have "0 \<le> x" "x < int (length qs)" by auto
    then have "nat x < length qs" "x = int (nat x)" by simp_all
    then show "x \<in> int ` {..<length qs}" by blast
  qed
  show "set (map idx (allScores qs ss)) = int ` {..<length qs}"
    unfolding idxs using sub by auto
qed

lemma endInterview_fields:
  assumes "endInterview qs ss = Inr r"
  shows "overall_score r
           = math_round (num_mul (if length qs > 0
                                  then num_div (num_sum (map score ss)) (of_nat (length qs))
                                  else 0) 10)"
    and "grade r = grade_of (overall_score r)"
    and "placement_ready r = placementReady (overall_score r)"
    and "total_questions r = length qs"
    and "questions_answered r = length (filter (\<lambda>s. \<not> skipped s) (allScores qs ss))"
    and "questions_skipped r = length (filter (\<lambda>s. skipped s) (allScores qs ss))"
    and "\<exists>cs. categoryScores qs (allScores qs ss) [] = Inr cs \<and> category_scores r = catAvg cs"
proof -
  have s: "foldl (\<lambda>sum s. num_add sum (score s)) 0 (allScores qs ss) = num_sum (map score ss)"
    using sum_allScores[of qs ss] by (simp add: foldl_score num_sum_def)
  show "overall_score r
           = math_round (num_mul (if length qs > 0
                                  then num_div (num_sum (map score ss)) (of_nat (length qs))
                                  else 0) 10)"
    and "grade r = grade_of (overall_score r)"
    and "placement_ready r = placementReady (overall_score r)"
    and "total_questions r = length qs"
    and "questions_answered r = length (filter (\<lambda>s. \<not> skipped s) (allScores qs ss))"
    and "questions_skipped r = length (filter (\<lambda>s. skipped s) (allScores qs ss))"
    and "\<exists>cs. categoryScores qs (allScores qs ss) [] = Inr cs \<and> category_scores r = catAvg cs"
    using assms unfolding endInterview_def Let_def s
    by (auto split: sum.splits)
qed

lemma overall_score_nonempty:
  assumes "endInterview qs ss = Inr r" and "qs \<noteq> []"
  shows "overall_score r = math_round (mean_times_ten (map score ss) (length qs))"
  using endInterview_fields(1)[OF assms(1)] assms(2) by (simp add: mean_times_ten_def)

lemma one_entry_per_indexD:
  assumes "one_entry_per_index qs ss"
  shows "distinct (map idx ss)" and "\<forall>s\<in>set ss. 0 \<le> idx s \<and> idx s < int (length qs)"
  using assms by (simp_all add: one_entry_per_index_def list_all_iff)

lemma reconciled_scores:
  assumes "distinct (map idx ss)"
  shows "list_all (\<lambda>s. score s = score_at ss (idx s)) (allScores qs ss)"
proof -
  have old: "score s = score_at ss (idx s)" if "s \<in> set ss" for s
  proof -
    from that have "find (\<lambda>x. idx x = idx s) ss \<noteq> None"
      by (auto simp: find_None_iff)
    then obtain t where t: "find (\<lambda>x. idx x = idx s) ss = Some t" by blast
    then have "t \<in> set ss" "idx t = idx s"
      by (auto simp: find_Some_iff)
    with assms that have "t = s"
      by (meson distinct_map inj_onD)
    with t show ?thesis by (simp add: score_at_def)
  qed
  have new: "score (missing_entry j) = score_at ss (idx (missing_entry j))"
    if "int j \<notin> idx ` set ss" for j
  proof -
    from that have "find (\<lambda>x. idx x = int j) ss = None"
      by (auto simp: find_None_iff image_iff)
    then show ?thesis by (simp add: score_at_def missing_entry_def)
  qed
  show ?thesis
    unfolding allScores_closed using old new by (auto simp: list_all_iff)
qed

lemma overall_in_range:
  assumes "0 \<le> t" and "t \<le> 10 * of_nat n"
  shows "0 \<le> math_round (num_mul (if n > 0 then num_div t (of_nat n) else 0) 10)
         \<and> math_round (num_mul (if n > 0 then num_div t (of_nat n) else 0) 10) \<le> 100"
proof -
  define a where "a = (if n > 0 then num_div t (of_nat n) else 0)"
  have "of_int 0 \<le> a \<and> a \<le> of_int 10"
  proof (cases "n > 0")
    case True
    then have "of_int 0 \<le> t / of_nat n" "t / of_nat n \<le> of_int 10"
      using assms by (simp_all add: pos_divide_le_eq)
    then have "of_int 0 \<le> to_double (t / of_nat n) \<and> to_double (t / of_nat n) \<le> of_int 10"
      by (rule to_double_range) simp_all
    with True show ?thesis by (simp add: a_def num_div_def)
  next
    case False
    then show ?thesis by (simp add: a_def)
  qed
  then have "of_int 0 \<le> a * 10" "a * 10 \<le> of_int 100" by simp_all
  then have "of_int 0 \<le> num_mul a 10 \<and> num_mul a 10 \<le> of_int 100"
    unfolding num_mul_def by (rule to_double_range) simp_all
  then have "math_round (of_int 0) \<le> math_round (num_mul a 10)"
            "math_round (num_mul a 10) \<le> math_round (of_int 100)"
    by (simp_all add: math_round_mono)
  then show ?thesis unfolding math_round_of_int a_def by simp
qed

text \<open>
  C2. When the list of scores has one entry per question index (none twice, none outside
  the question list) and every score lies between 0 and 10, the list after reconciliation
  has exactly one entry for each index of the question list, each with the score of its
  question (0 for a question without an entry). The overall score of the report is the sum
  of these scores divided by the number of questions, times 10, rounded to the nearest
  integer (a tie going up), and it lies between 0 and 100. Sum, quotient and product are
  those of JavaScript numbers: the sum is taken in the order of the list and every
  operation rounds to a double. The list is a JavaScript array, shorter than
  \<^verbatim>\<open>2^32\<close>.
\<close>

theorem overall_score_is_scaled_mean:
  assumes "one_entry_per_index qs ss" and "scores_in_range ss"
    and "length qs < 2 ^ 32"
    and "endInterview qs ss = Inr r"
  shows "distinct (map idx (allScores qs ss))
         \<and> set (map idx (allScores qs ss)) = int ` {..<length qs}
         \<and> list_all (\<lambda>s. score s = score_at ss (idx s)) (allScores qs ss)
         \<and> (qs \<noteq> [] \<longrightarrow>
              nearest_integer
                (mean_times_ten (map score (allScores qs ss)) (length qs))
                (overall_score r))
         \<and> 0 \<le> overall_score r \<and> overall_score r \<le> 100"
proof -
  note v = one_entry_per_indexD[OF assms(1)]
  have len: "length (allScores qs ss) = length qs"
    using v by (rule length_allScores)
  have "length ss \<le> length (allScores qs ss)" by (simp add: allScores_closed)
  with len have le: "length ss \<le> length qs" by simp
  have "int (length ss) < 2 ^ 32"
  proof -
    from le assms(3) have "length ss < 2 ^ 32" by simp
    then have "int (length ss) < int (2 ^ 32)" by (simp only: of_nat_less_iff)
    then show ?thesis by simp
  qed
  then have small: "10 * int (length (map score ss)) \<le> 2 ^ 53" by simp
  have "\<forall>x\<in>set (map score ss). 0 \<le> x \<and> x \<le> 10"
    using assms(2) by (simp add: scores_in_range_def list_all_iff)
  from num_sum_bounds[OF this small]
  have b: "0 \<le> num_sum (map score ss)" "num_sum (map score ss) \<le> 10 * of_nat (length ss)"
    by simp_all
  have "10 * (of_nat (length ss) :: rat) \<le> 10 * of_nat (length qs)" using le by simp
  with b have b2: "num_sum (map score ss) \<le> 10 * of_nat (length qs)" by linarith
  have rng: "0 \<le> overall_score r \<and> overall_score r \<le> 100"
    unfolding endInterview_fields(1)[OF assms(4)] using b(1) b2 by (rule overall_in_range)
  have "nearest_integer (mean_times_ten (map score (allScores qs ss)) (length qs))
          (overall_score r)"
    if "qs \<noteq> []"
    using overall_score_nonempty[OF assms(4) that]
    by (simp add: nearest_integer_iff mean_times_ten_def sum_allScores)
  with rng reconciled_indices[OF v] reconciled_scores[OF v(1)] show ?thesis by blast
qed

lemma isl_endInterview:
  "isl (endInterview qs ss) = isl (categoryScores qs (allScores qs ss) [])"
  unfolding endInterview_def Let_def by (simp split: sum.splits)

lemma endInterview_report:
  assumes "\<not> isl (categoryScores qs (allScores qs ss) [])"
  shows "\<not> isl (endInterview qs ss)"
    and "endInterview qs ss = Inr (projr (endInterview qs ss))"
  using assms by (simp_all add: isl_endInterview)

lemma mean_allScores:
  "mean_times_ten (map score (allScores qs ss)) n = mean_times_ten (map score ss) n"
  by (simp add: mean_times_ten_def sum_allScores)

theorem overall_score_is_scaled_mean_witness:
  "one_entry_per_index threeQuestions firstOfThree
   \<and> scores_in_range firstOfThree
   \<and> length threeQuestions < 2 ^ 32
   \<and> \<not> isl (endInterview threeQuestions firstOfThree)
   \<and> threeQuestions \<noteq> []
   \<and> nearest_integer
       (mean_times_ten (map score (allScores threeQuestions firstOfThree))
          (length threeQuestions))
       (overall_score (projr (endInterview threeQuestions firstOfThree)))
   \<and> mean_times_ten (map score (allScores threeQuestions firstOfThree))
        (length threeQuestions)
       = 3752999689475413 / 140737488355328
   \<and> overall_score (projr (endInterview threeQuestions firstOfThree)) = 27
   \<and> 0 \<le> overall_score (projr (endInterview threeQuestions firstOfThree))
   \<and> overall_score (projr (endInterview threeQuestions firstOfThree)) \<le> 100
   \<and> one_entry_per_index twoQuestions twoDecimalScores
   \<and> scores_in_range twoDecimalScores
   \<and> \<not> isl (endInterview twoQuestions twoDecimalScores)
   \<and> nearest_integer
       (mean_times_ten (map score (allScores twoQuestions twoDecimalScores))
          (length twoQuestions))
       (overall_score (projr (endInterview twoQuestions twoDecimalScores)))
   \<and> overall_score (projr (endInterview twoQuestions twoDecimalScores)) = 49"
proof -
  have h1: "one_entry_per_index threeQuestions firstOfThree" by code_simp
  have h2: "scores_in_range firstOfThree" by code_simp
  have l3: "length threeQuestions = 3" by (simp add: threeQuestions_def mockQuestions_def)
  then have h3: "length threeQuestions < 2 ^ 32" by simp
  have "\<not> isl (categoryScores threeQuestions (allScores threeQuestions firstOfThree) [])"
    by code_simp
  note h4 = endInterview_report[OF this]
  have ne: "threeQuestions \<noteq> []" using l3 by auto
  have v: "mean_times_ten (map score (allScores threeQuestions firstOfThree))
             (length threeQuestions)
           = 3752999689475413 / 140737488355328"
    unfolding mean_allScores l3
    by (simp add: firstOfThree_def mean_times_ten_def num_sum_def double_eval)
  note t = overall_score_is_scaled_mean [OF h1 h2 h3 h4(2)]
  from t ne have "nearest_integer (3752999689475413 / 140737488355328)
                    (overall_score (projr (endInterview threeQuestions firstOfThree)))"
    unfolding v by blast
  then have o: "overall_score (projr (endInterview threeQuestions firstOfThree)) = 27"
    by (simp add: nearest_integer_iff math_round_def floor_rat_divide_numeral)
  have g1: "one_entry_per_index twoQuestions twoDecimalScores" by code_simp
  have g2: "scores_in_range twoDecimalScores" by code_simp
  have l2: "length twoQuestions = 2" by (simp add: twoQuestions_def mockQuestions_def)
  then have g3: "length twoQuestions < 2 ^ 32" by simp
  have "\<not> isl (categoryScores twoQuestions (allScores twoQuestions twoDecimalScores) [])"
    by code_simp
  note g4 = endInterview_report[OF this]
  have ne2: "twoQuestions \<noteq> []" using l2 by auto
  have v2: "mean_times_ten (map score (allScores twoQuestions twoDecimalScores))
              (length twoQuestions)
            = 6966505673588735 / 140737488355328"
    unfolding mean_allScores l2
    by (simp add: twoDecimalScores_def mean_times_ten_def num_sum_def double_eval)
  note t2 = overall_score_is_scaled_mean [OF g1 g2 g3 g4(2)]
  from t2 ne2 have "nearest_integer (6966505673588735 / 140737488355328)
                    (overall_score (projr (endInterview twoQuestions twoDecimalScores)))"
    unfolding v2 by blast
  then have o2: "overall_score (projr (endInterview twoQuestions twoDecimalScores)) = 49"
    by (simp add: nearest_integer_iff math_round_def floor_rat_divide_numeral)
  from t t2 h1 h2 h3 h4(1) ne v o g1 g2 g4(1) ne2 o2
  show ?thesis by blast
qed

subsection \<open>Grades\<close>

text \<open>
  C3. The grade bands partition the integers: A+ from 90, A from 80 to 89, B+ from 70 to
  79, B from 60 to 69, C+ from 50 to 59, C from 40 to 49, D from 30 to 39 and F below 30.
  Every overall score has exactly one of the eight grades, and the grade of a report is
  the band of its overall score.
\<close>

theorem grade_bands:
  "(grade_of s = ''A+'' \<longleftrightarrow> 90 \<le> s)
   \<and> (grade_of s = ''A'' \<longleftrightarrow> 80 \<le> s \<and> s < 90)
   \<and> (grade_of s = ''B+'' \<longleftrightarrow> 70 \<le> s \<and> s < 80)
   \<and> (grade_of s = ''B'' \<longleftrightarrow> 60 \<le> s \<and> s < 70)
   \<and> (grade_of s = ''C+'' \<longleftrightarrow> 50 \<le> s \<and> s < 60)
   \<and> (grade_of s = ''C'' \<longleftrightarrow> 40 \<le> s \<and> s < 50)
   \<and> (grade_of s = ''D'' \<longleftrightarrow> 30 \<le> s \<and> s < 40)
   \<and> (grade_of s = ''F'' \<longleftrightarrow> s < 30)
   \<and> grade_of s \<in> set [''A+'', ''A'', ''B+'', ''B'', ''C+'', ''C'', ''D'', ''F'']
   \<and> (endInterview qs ss = Inr r \<longrightarrow> grade r = grade_of (overall_score r))"
proof -
  have bands: "(grade_of s = ''A+'' \<longleftrightarrow> 90 \<le> s)
   \<and> (grade_of s = ''A'' \<longleftrightarrow> 80 \<le> s \<and> s < 90)
   \<and> (grade_of s = ''B+'' \<longleftrightarrow> 70 \<le> s \<and> s < 80)
   \<and> (grade_of s = ''B'' \<longleftrightarrow> 60 \<le> s \<and> s < 70)
   \<and> (grade_of s = ''C+'' \<longleftrightarrow> 50 \<le> s \<and> s < 60)
   \<and> (grade_of s = ''C'' \<longleftrightarrow> 40 \<le> s \<and> s < 50)
   \<and> (grade_of s = ''D'' \<longleftrightarrow> 30 \<le> s \<and> s < 40)
   \<and> (grade_of s = ''F'' \<longleftrightarrow> s < 30)
   \<and> grade_of s \<in> set [''A+'', ''A'', ''B+'', ''B'', ''C+'', ''C'', ''D'', ''F'']"
    unfolding grade_of_def by simp
  have "endInterview qs ss = Inr r \<longrightarrow> grade r = grade_of (overall_score r)"
    using endInterview_fields(2) by blast
  with bands show ?thesis by blast
qed

theorem grade_bands_witness:
  "\<not> isl (endInterview mockQuestions fiveScores)
   \<and> grade (projr (endInterview mockQuestions fiveScores))
       = grade_of (overall_score (projr (endInterview mockQuestions fiveScores)))
   \<and> grade_of 36 = ''D''"
proof -
  have "\<not> isl (categoryScores mockQuestions (allScores mockQuestions fiveScores) [])"
    by code_simp
  note h = endInterview_report[OF this]
  with grade_bands [of 36 mockQuestions fiveScores
                       "projr (endInterview mockQuestions fiveScores)"]
  show ?thesis by simp
qed

subsection \<open>Answered and skipped questions\<close>

text \<open>
  C4, for lists of scores without repeated or foreign indices. When the list of scores has one entry per question index (none twice,
  none outside the question list), the questions answered and the questions skipped of the
  report add up to its total number of questions, which is the length of the question
  list; the entries that reconciliation adds for the missing indices count as skipped.
\<close>

theorem answered_plus_skipped_is_total:
  assumes "one_entry_per_index qs ss" and "endInterview qs ss = Inr r"
  shows "questions_answered r + questions_skipped r = total_questions r
         \<and> total_questions r = length qs"
proof -
  have "length (filter (\<lambda>s. skipped s) (allScores qs ss))
        + length (filter (\<lambda>s. \<not> skipped s) (allScores qs ss))
        = length (allScores qs ss)"
    by (rule sum_length_filter_compl)
  moreover have "length (allScores qs ss) = length qs"
    using one_entry_per_indexD[OF assms(1)] by (rule length_allScores)
  ultimately show ?thesis
    using endInterview_fields(4,5,6)[OF assms(2)] by simp
qed

theorem answered_plus_skipped_is_total_witness:
  "one_entry_per_index mockQuestions partialScores
   \<and> \<not> isl (endInterview mockQuestions partialScores)
   \<and> questions_answered (projr (endInterview mockQuestions partialScores))
       + questions_skipped (projr (endInterview mockQuestions partialScores))
       = total_questions (projr (endInterview mockQuestions partialScores))
   \<and> total_questions (projr (endInterview mockQuestions partialScores))
       = length mockQuestions"
proof -
  have h1: "one_entry_per_index mockQuestions partialScores" by code_simp
  have "\<not> isl (categoryScores mockQuestions (allScores mockQuestions partialScores) [])"
    by code_simp
  note h = endInterview_report[OF this]
  from answered_plus_skipped_is_total [OF h1 h(2)] h1 h(1) show ?thesis by blast
qed

text \<open>Without that condition the sum can exceed the total: an answer and then a skip of
  the only question give one answered and one skipped question out of one.\<close>

theorem answered_plus_skipped_counterexample:
  "\<not> isl (endInterview oneQuestion answeredThenSkipped)
   \<and> questions_answered (projr (endInterview oneQuestion answeredThenSkipped)) = 1
   \<and> questions_skipped (projr (endInterview oneQuestion answeredThenSkipped)) = 1
   \<and> total_questions (projr (endInterview oneQuestion answeredThenSkipped)) = 1
   \<and> questions_answered (projr (endInterview oneQuestion answeredThenSkipped))
       + questions_skipped (projr (endInterview oneQuestion answeredThenSkipped))
       \<noteq> total_questions (projr (endInterview oneQuestion answeredThenSkipped))"
proof -
  have "\<not> isl (categoryScores oneQuestion (allScores oneQuestion answeredThenSkipped) [])"
    by code_simp
  note h = endInterview_report[OF this]
  have a: "length (filter (\<lambda>s. \<not> skipped s) (allScores oneQuestion answeredThenSkipped)) = 1"
    by code_simp
  have b: "length (filter (\<lambda>s. skipped s) (allScores oneQuestion answeredThenSkipped)) = 1"
    by code_simp
  have c: "length oneQuestion = 1" by (simp add: oneQuestion_def)
  from h(1) endInterview_fields(4,5,6)[OF h(2)] a b c show ?thesis by simp
qed

subsection \<open>Skipping never raises the overall score\<close>

lemma list_all2_zero_at:
  "k < length xs \<Longrightarrow> 0 \<le> xs ! k \<Longrightarrow> list_all2 (\<le>) (xs[k := 0]) (xs :: rat list)"
  by (auto simp: list_all2_conv_all_nth nth_list_update)

text \<open>
  C9. Replacing one entry of the list of scores by a skipped entry of score 0 for the same
  index, all other entries unchanged, never increases the overall score of the report.
  It holds for every list of scores, as long as the replaced score is not negative.
\<close>

theorem overall_score_skip_monotone:
  assumes "k < length ss" and "0 \<le> score (ss ! k)"
    and "endInterview qs ss = Inr r"
    and "endInterview qs (ss[k := \<lparr>idx = idx (ss ! k), score = 0, skipped = True\<rparr>]) = Inr r'"
  shows "overall_score r' \<le> overall_score r"
proof -
  let ?ss' = "ss[k := \<lparr>idx = idx (ss ! k), score = 0, skipped = True\<rparr>]"
  have "map score ?ss' = (map score ss)[k := 0]" by (simp add: map_update)
  then have "list_all2 (\<le>) (map score ?ss') (map score ss)"
    using list_all2_zero_at[of k "map score ss"] assms(1,2) by simp
  then have le: "num_sum (map score ?ss') \<le> num_sum (map score ss)"
    unfolding num_sum_def by (rule foldl_num_add_mono) simp
  have "(if length qs > 0 then num_div (num_sum (map score ?ss')) (of_nat (length qs)) else 0)
        \<le> (if length qs > 0 then num_div (num_sum (map score ss)) (of_nat (length qs)) else 0)"
    using le unfolding num_div_def by (auto intro!: to_double_mono divide_right_mono)
  then have "num_mul (if length qs > 0
                      then num_div (num_sum (map score ?ss')) (of_nat (length qs)) else 0) 10
             \<le> num_mul (if length qs > 0
                         then num_div (num_sum (map score ss)) (of_nat (length qs)) else 0) 10"
    unfolding num_mul_def by (intro to_double_mono mult_right_mono) simp_all
  then show ?thesis
    unfolding endInterview_fields(1)[OF assms(3)] endInterview_fields(1)[OF assms(4)]
    by (rule math_round_mono)
qed

theorem overall_score_skip_monotone_witness:
  "(0::nat) < length partialScores \<and> 0 \<le> score (partialScores ! 0)
   \<and> \<not> isl (endInterview mockQuestions partialScores)
   \<and> \<not> isl (endInterview mockQuestions
              (partialScores[0 := \<lparr>idx = idx (partialScores ! 0), score = 0, skipped = True\<rparr>]))
   \<and> overall_score (projr (endInterview mockQuestions
         (partialScores[0 := \<lparr>idx = idx (partialScores ! 0), score = 0, skipped = True\<rparr>])))
       \<le> overall_score (projr (endInterview mockQuestions partialScores))"
proof -
  let ?ss' = "partialScores[0 := \<lparr>idx = idx (partialScores ! 0), score = 0, skipped = True\<rparr>]"
  have h1: "(0::nat) < length partialScores" by code_simp
  have h2: "0 \<le> score (partialScores ! 0)" by code_simp
  have "\<not> isl (categoryScores mockQuestions (allScores mockQuestions partialScores) [])"
    by code_simp
  note h3 = endInterview_report[OF this]
  have "\<not> isl (categoryScores mockQuestions (allScores mockQuestions ?ss') [])"
    by code_simp
  note h4 = endInterview_report[OF this]
  from overall_score_skip_monotone [OF h1 h2 h3(2) h4(2)] h1 h2 h3(1) h4(1)
  show ?thesis by blast
qed

subsection \<open>The five-question example\<close>

lemma foldl_num_add_skip_zeros:
  assumes "to_double a = a" and "list_all (\<lambda>s. score s = 0) (filter (\<lambda>s. skipped s) ss)"
  shows "foldl num_add a (map score ss)
         = foldl num_add a (map score (filter (\<lambda>s. \<not> skipped s) ss))"
  using assms
proof (induction ss arbitrary: a)
  case Nil
  then show ?case by simp
next
  case (Cons s ss)
  show ?case
  proof (cases "skipped s")
    case True
    with Cons.prems have z: "score s = 0"
      and rest: "list_all (\<lambda>s. score s = 0) (filter (\<lambda>s. skipped s) ss)" by simp_all
    have "num_add a (score s) = a" using Cons.prems(1) z by (simp add: num_add_def)
    with Cons.IH[OF Cons.prems(1) rest] True show ?thesis by simp
  next
    case False
    with Cons.prems have rest: "list_all (\<lambda>s. score s = 0) (filter (\<lambda>s. skipped s) ss)"
      by simp
    have "to_double (num_add a (score s)) = num_add a (score s)"
      by (simp add: num_add_def to_double_idem)
    from Cons.IH[OF this rest] False show ?thesis by simp
  qed
qed

lemma five_questions_overall:
  assumes "length qs = 5"
    and "map score (filter (\<lambda>s. \<not> skipped s) ss) = [8, 6, 4]"
    and "list_all (\<lambda>s. score s = 0) (filter (\<lambda>s. skipped s) ss)"
    and "endInterview qs ss = Inr r"
  shows "overall_score r = 36"
proof -
  have "num_sum (map score ss) = foldl num_add 0 (map score (filter (\<lambda>s. \<not> skipped s) ss))"
    unfolding num_sum_def using assms(3) by (intro foldl_num_add_skip_zeros) (simp add: to_double_zero)
  also have "\<dots> = 18"
    unfolding assms(2) by (simp add: double_eval)
  finally have total: "num_sum (map score ss) = 18" .
  show ?thesis
    unfolding endInterview_fields(1)[OF assms(4)] total assms(1)
    by (simp add: double_eval)
qed

text \<open>
  C8, with the grade that the thresholds give. In an interview of five questions where the
  answered questions scored 8, 6 and 4 and every skipped entry scored 0 (a skipped question
  may also have no entry at all), the overall score is 36, the grade is D (36 lies in the
  band from 30 to 39) and the placement verdict is Not Ready.
\<close>

theorem five_questions_two_skipped:
  assumes "length qs = 5"
    and "map score (filter (\<lambda>s. \<not> skipped s) ss) = [8, 6, 4]"
    and "list_all (\<lambda>s. score s = 0) (filter (\<lambda>s. skipped s) ss)"
    and "endInterview qs ss = Inr r"
  shows "overall_score r = 36 \<and> grade r = ''D'' \<and> placement_ready r = ''Not Ready''"
proof -
  have ov: "overall_score r = 36" using assms by (rule five_questions_overall)
  have "grade r = ''D''"
    unfolding endInterview_fields(2)[OF assms(4)] ov by (simp add: grade_of_def)
  moreover have "placement_ready r = ''Not Ready''"
    unfolding endInterview_fields(3)[OF assms(4)] ov by (simp add: placementReady_def)
  ultimately show ?thesis using ov by simp
qed

theorem five_questions_two_skipped_witness:
  "length mockQuestions = 5
   \<and> map score (filter (\<lambda>s. \<not> skipped s) fiveScores) = [8, 6, 4]
   \<and> list_all (\<lambda>s. score s = 0) (filter (\<lambda>s. skipped s) fiveScores)
   \<and> \<not> isl (endInterview mockQuestions fiveScores)
   \<and> overall_score (projr (endInterview mockQuestions fiveScores)) = 36
   \<and> grade (projr (endInterview mockQuestions fiveScores)) = ''D''
   \<and> placement_ready (projr (endInterview mockQuestions fiveScores)) = ''Not Ready''"
proof -
  have h1: "length mockQuestions = 5" by (simp add: mockQuestions_def)
  have h2: "map score (filter (\<lambda>s. \<not> skipped s) fiveScores) = [8, 6, 4]"
    by (simp add: fiveScores_def)
  have h3: "list_all (\<lambda>s. score s = 0) (filter (\<lambda>s. skipped s) fiveScores)"
    by (simp add: fiveScores_def)
  have "\<not> isl (categoryScores mockQuestions (allScores mockQuestions fiveScores) [])"
    by code_simp
  note h4 = endInterview_report[OF this]
  from five_questions_two_skipped [OF h1 h2 h3 h4(2)] h1 h2 h3 h4(1) show ?thesis by blast
qed

text \<open>On the demonstration questions the grade is D, not C.\<close>

theorem five_questions_grade_counterexample:
  "\<not> isl (endInterview mockQuestions fiveScores)
   \<and> overall_score (projr (endInterview mockQuestions fiveScores)) = 36
   \<and> grade (projr (endInterview mockQuestions fiveScores)) = ''D''
   \<and> grade (projr (endInterview mockQuestions fiveScores)) \<noteq> ''C''"
proof -
  have h1: "length mockQuestions = 5" by (simp add: mockQuestions_def)
  have h2: "map score (filter (\<lambda>s. \<not> skipped s) fiveScores) = [8, 6, 4]"
    by (simp add: fiveScores_def)
  have h3: "list_all (\<lambda>s. score s = 0) (filter (\<lambda>s. skipped s) fiveScores)"
    by (simp add: fiveScores_def)
  have "\<not> isl (categoryScores mockQuestions (allScores mockQuestions fiveScores) [])"
    by code_simp
  note h4 = endInterview_report[OF this]
  have ov: "overall_score (projr (endInterview mockQuestions fiveScores)) = 36"
    using h1 h2 h3 h4(2) by (rule five_questions_overall)
  have "grade (projr (endInterview mockQuestions fiveScores)) = ''D''"
    unfolding endInterview_fields(2)[OF h4(2)] ov by (simp add: grade_of_def)
  with h4(1) ov show ?thesis by simp
qed

subsection \<open>The empty interview\<close>

text \<open>
  C6, with the suggestions that the thresholds give. For the empty question list and the
  empty list of scores the average is taken as 0 without dividing, and the report has
  overall score 0, grade F, no category score, the fallback strength and the fallback
  weakness. Its suggestions are the two that an overall score below 70 and below 50
  trigger; the generic suggestion is not used.
\<close>

theorem empty_interview_report:
  "endInterview [] []
   = Inr \<lparr>overall_score = 0, grade = ''F'', questions_answered = 0,
          total_questions = 0, questions_skipped = 0, category_scores = [],
          strengths = [''Participated in the interview''],
          weaknesses = [''No major weaknesses identified''],
          improvement_suggestions =
            [''Practice answering questions out loud to improve fluency'',
             ''Consider taking mock interviews to build confidence''],
          placement_ready = ''Not Ready''\<rparr>"
  by code_simp

text \<open>The suggestions of that report are not the generic fallback.\<close>

theorem empty_interview_suggestions_counterexample:
  "\<not> isl (endInterview [] [])
   \<and> improvement_suggestions (projr (endInterview [] []))
       \<noteq> [''Continue practicing to maintain your skills'']"
  by code_simp

subsection \<open>Category scores\<close>

lemma map_of_set_property:
  "map_of (set_property k v cs) k' = (if k' = k then Some v else map_of cs k')"
  by (induction cs) auto

lemma categoryScores_map_of:
  assumes "categoryScores qs all cs = Inr g"
  shows "map_of g k
         = (case map_of cs k of
              Some sc \<Rightarrow> Some (sc @ map score (filter (\<lambda>s. qType qs s = k) all))
            | None \<Rightarrow>
                if filter (\<lambda>s. qType qs s = k) all = [] then None
                else Some (map score (filter (\<lambda>s. qType qs s = k) all)))"
  using assms
proof (induction all arbitrary: cs)
  case Nil
  then show ?case by (auto split: option.splits)
next
  case (Cons s rest)
  show ?case
  proof (cases "map_of cs (qType qs s)")
    case None
    with Cons.prems have ok: "qType qs s \<notin> set object_prototype_keys"
      and run: "categoryScores qs rest (set_property (qType qs s) [score s] cs) = Inr g"
      by (auto split: if_splits)
    from Cons.IH[OF run] None show ?thesis
      by (auto simp: map_of_set_property split: option.splits)
  next
    case (Some sc)
    with Cons.prems
    have run: "categoryScores qs rest (set_property (qType qs s) (sc @ [score s]) cs) = Inr g"
      by simp
    from Cons.IH[OF run] Some show ?thesis
      by (auto simp: map_of_set_property split: option.splits)
  qed
qed

lemma set_object_entries: "set (object_entries kvs) = set kvs"
  by (auto simp: object_entries_def)

lemma catAvg_member:
  assumes "map_of cs k = Some scores"
  shows "(k, math_round (mean_times_ten scores (length scores))) \<in> set (catAvg cs)"
proof -
  from assms have "(k, scores) \<in> set (object_entries cs)"
    by (simp add: set_object_entries map_of_SomeD)
  then have "(case (k, scores) of (type, scores) \<Rightarrow>
               (type, math_round
                        (num_mul (num_div (foldl (\<lambda>a b. num_add a b) 0 scores)
                                          (of_nat (length scores)))
                                 10)))
             \<in> set (catAvg cs)"
    unfolding catAvg_def set_map by (rule imageI)
  then show ?thesis
    by (simp add: mean_times_ten_def num_sum_def)
qed

lemma qType_general:
  assumes "case question_at qs (idx s) of
             None \<Rightarrow> True
           | Some q \<Rightarrow> question_type q = None \<or> question_type q = Some []"
  shows "qType qs s = ''general''"
  using assms by (auto simp: qType_def split: option.splits)

text \<open>
  C10. An entry of the reconciled list whose index has no question in the list, or whose
  question has no type or the empty type, is grouped under the key \<open>general\<close>: its
  score is one of the scores collected under that key, which are those of all entries whose
  type falls back to \<open>general\<close>, and the category scores of the report contain the key
  \<open>general\<close> with their mean times 10, computed with the operations of numbers and
  rounded by \<^verbatim>\<open>Math.round\<close>. The witness has two interviews in which no question
  declares the type \<open>general\<close> and the report has that key all the same.
\<close>

theorem untyped_entries_grouped_under_general:
  assumes "endInterview qs ss = Inr r"
    and "s \<in> set (allScores qs ss)"
    and "case question_at qs (idx s) of
           None \<Rightarrow> True
         | Some q \<Rightarrow> question_type q = None \<or> question_type q = Some []"
  shows "\<exists>cs scores.
           categoryScores qs (allScores qs ss) [] = Inr cs
           \<and> map_of cs ''general'' = Some scores
           \<and> scores = map score (filter (\<lambda>e. qType qs e = ''general'') (allScores qs ss))
           \<and> score s \<in> set scores
           \<and> (''general'', math_round (mean_times_ten scores (length scores)))
               \<in> set (category_scores r)"
proof -
  let ?grp = "filter (\<lambda>e. qType qs e = ''general'') (allScores qs ss)"
  from endInterview_fields(7)[OF assms(1)] obtain cs
    where cs: "categoryScores qs (allScores qs ss) [] = Inr cs"
      and avg: "category_scores r = catAvg cs"
    by blast
  have "qType qs s = ''general''" using assms(3) by (rule qType_general)
  with assms(2) have mem: "s \<in> set ?grp" by simp
  have ne: "?grp \<noteq> []"
  proof
    assume "?grp = []"
    with mem show False by (simp only: set_simps empty_iff)
  qed
  have m: "map_of cs ''general'' = Some (map score ?grp)"
    using categoryScores_map_of[OF cs, of "''general''"] ne by simp
  have "score s \<in> set (map score ?grp)" using mem by (simp only: set_map) (rule imageI)
  with cs m catAvg_member[OF m] avg show ?thesis by auto
qed

theorem untyped_entries_grouped_under_general_witness:
  "\<not> isl (endInterview untypedQuestions untypedScores)
   \<and> \<lparr>idx = 1, score = 5, skipped = False\<rparr> \<in> set (allScores untypedQuestions untypedScores)
   \<and> list_all (\<lambda>q. question_type q \<noteq> Some ''general'') untypedQuestions
   \<and> (\<exists>cs scores.
         categoryScores untypedQuestions (allScores untypedQuestions untypedScores) [] = Inr cs
         \<and> map_of cs ''general'' = Some scores
         \<and> scores = map score (filter (\<lambda>e. qType untypedQuestions e = ''general'')
                                   (allScores untypedQuestions untypedScores))
         \<and> score \<lparr>idx = 1, score = 5, skipped = False\<rparr> \<in> set scores
         \<and> (''general'', math_round (mean_times_ten scores (length scores)))
             \<in> set (category_scores (projr (endInterview untypedQuestions untypedScores))))
   \<and> category_scores (projr (endInterview untypedQuestions untypedScores))
       = [(''hr'', 70), (''general'', 50)]
   \<and> list_all (\<lambda>q. question_type q \<noteq> Some ''general'') twoUntypedQuestions
   \<and> category_scores (projr (endInterview twoUntypedQuestions twoUntypedScores))
       = [(''general'', 29)]"
proof -
  let ?s = "\<lparr>idx = 1, score = 5, skipped = False\<rparr>"
  have "\<not> isl (categoryScores untypedQuestions (allScores untypedQuestions untypedScores) [])"
    by code_simp
  note h1 = endInterview_report[OF this]
  have h2: "?s \<in> set (allScores untypedQuestions untypedScores)" by code_simp
  have h3: "case question_at untypedQuestions (idx ?s) of
              None \<Rightarrow> True
            | Some q \<Rightarrow> question_type q = None \<or> question_type q = Some []"
    by code_simp
  have h4: "list_all (\<lambda>q. question_type q \<noteq> Some ''general'') untypedQuestions"
    by code_simp
  have h5: "category_scores (projr (endInterview untypedQuestions untypedScores))
            = [(''hr'', 70), (''general'', 50)]"
    by code_simp
  have h6: "list_all (\<lambda>q. question_type q \<noteq> Some ''general'') twoUntypedQuestions"
    by code_simp
  have h7: "category_scores (projr (endInterview twoUntypedQuestions twoUntypedScores))
            = [(''general'', 29)]"
    by code_simp
  from untyped_entries_grouped_under_general [OF h1(2) h2 h3] h1(1) h2 h4 h5 h6 h7
  show ?thesis by blast
qed

subsection \<open>Events for a question that already has a score\<close>

lemma hello_world_score:
  "evaluateAnswer (Some ''hello world'')
     (Some \<lparr>question_text = ''Tell me about yourself and your background in technology.'',
            question_type = Some ''hr'', expected_keywords = None\<rparr>)
   = to_double (33 / 10)"
  by code_simp

lemma first_answer_recorded:
  "stopRecording now recordingFirstAnswer
   = recordingFirstAnswer
       \<lparr>isRecording := False,
        isProcessing := False,
        responses := [\<lparr>question_idx = 0, response_text = ''hello world'', timestamp = now\<rparr>],
        questionScores := [\<lparr>idx = 0, score = to_double (33 / 10), skipped = False\<rparr>],
        feedback_msg := Some (TryMoreDetail (to_double (33 / 10)))\<rparr>"
proof -
  have t: "trim ''hello world'' \<noteq> []" by code_simp
  have lt: "to_double (33 / 10) < 4" by (simp add: double_eval)
  show ?thesis
    unfolding stopRecording_def Let_def
    using t lt by (simp add: recordingFirstAnswer_def hello_world_score)
qed

text \<open>
  C5, as the code behaves. There is no check for an index that already has a score and no
  error: \<^verbatim>\<open>skipQuestion\<close> always appends a skipped entry of score 0 for the current
  question, and \<^verbatim>\<open>stopRecording\<close> always appends the score of a non-blank transcript
  for the current question. Reconciliation keeps every entry of the list and only adds
  entries for the indices that have none. The overall score of the report is computed from
  the sum of all entries of the list, entries with a repeated index included, divided by
  the number of questions, times 10 (with the operations of numbers) and rounded to the
  nearest integer.
\<close>

theorem duplicate_events_are_appended:
  "questionScores (skipQuestion st)
     = questionScores st @ [\<lparr>idx = questionNumber st - 1, score = 0, skipped = True\<rparr>]
   \<and> (trim (transcript st) \<noteq> [] \<longrightarrow>
        questionScores (stopRecording now st)
        = questionScores st
          @ [\<lparr>idx = questionNumber st - 1,
              score = evaluateAnswer (Some (transcript st)) (currentQuestion st),
              skipped = False\<rparr>])
   \<and> allScores qs ss
       = ss @ map missing_entry (filter (\<lambda>j. int j \<notin> idx ` set ss) [0..<length qs])
   \<and> (endInterview qs ss = Inr r \<longrightarrow> qs \<noteq> [] \<longrightarrow>
        nearest_integer (mean_times_ten (map score ss) (length qs)) (overall_score r))"
proof (intro conjI impI)
  show "questionScores (skipQuestion st)
        = questionScores st @ [\<lparr>idx = questionNumber st - 1, score = 0, skipped = True\<rparr>]"
    by (simp add: skipQuestion_def)
next
  assume "trim (transcript st) \<noteq> []"
  then show "questionScores (stopRecording now st)
        = questionScores st
          @ [\<lparr>idx = questionNumber st - 1,
              score = evaluateAnswer (Some (transcript st)) (currentQuestion st),
              skipped = False\<rparr>]"
    by (simp add: stopRecording_def Let_def)
next
  show "allScores qs ss
        = ss @ map missing_entry (filter (\<lambda>j. int j \<notin> idx ` set ss) [0..<length qs])"
    by (rule allScores_closed)
next
  assume "endInterview qs ss = Inr r" and "qs \<noteq> []"
  then show "nearest_integer (mean_times_ten (map score ss) (length qs)) (overall_score r)"
    by (simp add: nearest_integer_iff overall_score_nonempty)
qed

theorem duplicate_events_are_appended_witness:
  "trim (transcript (stopRecording ''t1'' recordingFirstAnswer)) \<noteq> []
   \<and> questionScores (stopRecording ''t2'' (stopRecording ''t1'' recordingFirstAnswer))
       = questionScores (stopRecording ''t1'' recordingFirstAnswer)
         @ [\<lparr>idx = 0, score = to_double (33 / 10), skipped = False\<rparr>]
   \<and> questionScores (skipQuestion (stopRecording ''t1'' recordingFirstAnswer))
       = questionScores (stopRecording ''t1'' recordingFirstAnswer)
         @ [\<lparr>idx = 0, score = 0, skipped = True\<rparr>]
   \<and> \<not> isl (endInterview oneQuestion
              (questionScores (stopRecording ''t2'' (stopRecording ''t1'' recordingFirstAnswer))))
   \<and> oneQuestion \<noteq> []
   \<and> nearest_integer
       (mean_times_ten
          (map score
             (questionScores (stopRecording ''t2'' (stopRecording ''t1'' recordingFirstAnswer))))
          (length oneQuestion))
       (overall_score (projr (endInterview oneQuestion
          (questionScores (stopRecording ''t2'' (stopRecording ''t1'' recordingFirstAnswer))))))"
proof -
  let ?st1 = "stopRecording ''t1'' recordingFirstAnswer"
  let ?ss2 = "questionScores (stopRecording ''t2'' ?st1)"
  have t: "trim ''hello world'' \<noteq> []" by code_simp
  have h1: "trim (transcript ?st1) \<noteq> []"
    unfolding first_answer_recorded using t by (simp add: recordingFirstAnswer_def)
  have v1: "questionNumber ?st1 - 1 = 0"
    unfolding first_answer_recorded by (simp add: recordingFirstAnswer_def)
  have v2: "evaluateAnswer (Some (transcript ?st1)) (currentQuestion ?st1) = to_double (33 / 10)"
    unfolding first_answer_recorded by (simp add: recordingFirstAnswer_def hello_world_score)
  note T = duplicate_events_are_appended
             [of ?st1 "''t2''" oneQuestion ?ss2 "projr (endInterview oneQuestion ?ss2)"]
  from T have a: "questionScores (skipQuestion ?st1)
                  = questionScores ?st1 @ [\<lparr>idx = 0, score = 0, skipped = True\<rparr>]"
    unfolding v1 by (rule conjunct1)
  from T h1 have b: "questionScores (stopRecording ''t2'' ?st1)
                     = questionScores ?st1
                       @ [\<lparr>idx = 0, score = to_double (33 / 10), skipped = False\<rparr>]"
    unfolding v1 v2 by blast
  have ss2: "?ss2 = [\<lparr>idx = 0, score = to_double (33 / 10), skipped = False\<rparr>,
                     \<lparr>idx = 0, score = to_double (33 / 10), skipped = False\<rparr>]"
    using b unfolding first_answer_recorded by (simp add: recordingFirstAnswer_def)
  have "\<not> isl (categoryScores oneQuestion
                 (allScores oneQuestion
                    [\<lparr>idx = 0, score = to_double (33 / 10), skipped = False\<rparr>,
                     \<lparr>idx = 0, score = to_double (33 / 10), skipped = False\<rparr>]) [])"
    by code_simp
  then have "\<not> isl (categoryScores oneQuestion (allScores oneQuestion ?ss2) [])"
    unfolding ss2 .
  note h2 = endInterview_report[OF this]
  have ne: "oneQuestion \<noteq> []" by (simp add: oneQuestion_def)
  from T h2(2) ne
  have c: "nearest_integer (mean_times_ten (map score ?ss2) (length oneQuestion))
             (overall_score (projr (endInterview oneQuestion ?ss2)))"
    by blast
  from h1 b a h2(1) ne c show ?thesis by (intro conjI)
qed

text \<open>A second answer to the only question is recorded as a second entry and doubles the
  overall score; a skip after the answer is recorded as a second entry too.\<close>

theorem duplicate_event_counterexample:
  "questionScores (stopRecording ''t1'' recordingFirstAnswer)
     = [\<lparr>idx = 0, score = to_double (33 / 10), skipped = False\<rparr>]
   \<and> questionScores (stopRecording ''t2'' (stopRecording ''t1'' recordingFirstAnswer))
     = [\<lparr>idx = 0, score = to_double (33 / 10), skipped = False\<rparr>,
        \<lparr>idx = 0, score = to_double (33 / 10), skipped = False\<rparr>]
   \<and> questionScores (skipQuestion (stopRecording ''t1'' recordingFirstAnswer))
     = [\<lparr>idx = 0, score = to_double (33 / 10), skipped = False\<rparr>,
        \<lparr>idx = 0, score = 0, skipped = True\<rparr>]
   \<and> \<not> isl (endInterview oneQuestion
              (questionScores (stopRecording ''t1'' recordingFirstAnswer)))
   \<and> overall_score (projr (endInterview oneQuestion
         (questionScores (stopRecording ''t1'' recordingFirstAnswer)))) = 33
   \<and> \<not> isl (endInterview oneQuestion
              (questionScores (stopRecording ''t2'' (stopRecording ''t1'' recordingFirstAnswer))))
   \<and> overall_score (projr (endInterview oneQuestion
         (questionScores (stopRecording ''t2'' (stopRecording ''t1'' recordingFirstAnswer)))))
       = 66"
proof -
  let ?e = "\<lparr>idx = 0, score = to_double (33 / 10), skipped = False\<rparr>"
  have t: "trim ''hello world'' \<noteq> []" by code_simp
  have s1: "questionScores (stopRecording ''t1'' recordingFirstAnswer) = [?e]"
    unfolding first_answer_recorded by (simp add: recordingFirstAnswer_def)
  have s2: "questionScores (stopRecording ''t2'' (stopRecording ''t1'' recordingFirstAnswer))
            = [?e, ?e]"
    unfolding first_answer_recorded using t
    by (simp add: stopRecording_def Let_def recordingFirstAnswer_def hello_world_score)
  have s3: "questionScores (skipQuestion (stopRecording ''t1'' recordingFirstAnswer))
            = [?e, \<lparr>idx = 0, score = 0, skipped = True\<rparr>]"
    unfolding first_answer_recorded by (simp add: recordingFirstAnswer_def skipQuestion_def)
  have ne: "oneQuestion \<noteq> []" and l1: "length oneQuestion = 1" by (simp_all add: oneQuestion_def)
  have "\<not> isl (categoryScores oneQuestion (allScores oneQuestion [?e]) [])" by code_simp
  note r1 = endInterview_report[OF this]
  have "\<not> isl (categoryScores oneQuestion (allScores oneQuestion [?e, ?e]) [])" by code_simp
  note r2 = endInterview_report[OF this]
  have o1: "overall_score (projr (endInterview oneQuestion [?e])) = 33"
    unfolding overall_score_nonempty[OF r1(2) ne] l1
    by (simp add: mean_times_ten_def num_sum_def double_eval)
  have o2: "overall_score (projr (endInterview oneQuestion [?e, ?e])) = 66"
    unfolding overall_score_nonempty[OF r2(2) ne] l1
    by (simp add: mean_times_ten_def num_sum_def double_eval)
  from s1 s2 s3 r1(1) r2(1) o1 o2 show ?thesis by (simp only: simp_thms)
qed

end
